theory Spec2Isabelle
  imports Main "HOL-Library.Word"
begin

unbundle bit_operations_syntax

section \<open>JavaScript strings\<close>

text \<open>
  A JavaScript string is a sequence of UTF-16 code units, here the integers from 0 to
  65535. \<open>js\<close> turns an ASCII literal into its code units.
\<close>

type_synonym cu = int
type_synonym jsstring = "cu list"

definition js :: "string \<Rightarrow> jsstring" where
  "js s = map of_char s"

text \<open>
  The class \<open>\s\<close> of regular expressions, which is also the set that
  \<open>String.prototype.trim\<close> removes: WhiteSpace and LineTerminator of ECMAScript.
\<close>

definition is_space :: "cu \<Rightarrow> bool" where
  "is_space c \<longleftrightarrow>
     c = 0x09 \<or> c = 0x0A \<or> c = 0x0B \<or> c = 0x0C \<or> c = 0x0D \<or> c = 0x20 \<or> c = 0xA0 \<or>
     c = 0x1680 \<or> (0x2000 \<le> c \<and> c \<le> 0x200A) \<or> c = 0x2028 \<or> c = 0x2029 \<or>
     c = 0x202F \<or> c = 0x205F \<or> c = 0x3000 \<or> c = 0xFEFF"

definition is_digit :: "cu \<Rightarrow> bool" where
  "is_digit c \<longleftrightarrow> 0x30 \<le> c \<and> c \<le> 0x39"

definition trim :: "jsstring \<Rightarrow> jsstring" where
  "trim s = rev (dropWhile is_space (rev (dropWhile is_space s)))"

text \<open>\<open>a || b\<close> on strings and on numbers: the empty string and 0 are falsy.\<close>

definition str_or :: "jsstring \<Rightarrow> jsstring \<Rightarrow> jsstring" where
  "str_or a b = (if a = [] then b else a)"

definition num_or :: "int \<Rightarrow> int \<Rightarrow> int" where
  "num_or a b = (if a = 0 then b else a)"

section \<open>Regular expressions\<close>

text \<open>
  The regular expressions of the sources use character classes, sequence, alternation,
  \<open>?\<close> on groups, \<open>*\<close> and \<open>+\<close> on single character classes, capture groups and \<open>$\<close>.
  \<open>rx_run\<close> is the backtracking matcher: it returns every way of matching at the start of
  the input, in the order in which the engine tries them (greedy quantifiers first, the
  left alternative first), each with the rest of the input and the captures made.
\<close>

datatype rx =
    Chr "cu \<Rightarrow> bool"
  | Star "cu \<Rightarrow> bool"
  | Plus "cu \<Rightarrow> bool"
  | Opt rx
  | Seq rx rx
  | Alt rx rx
  | Grp nat rx
  | Eol
  | Eps

type_synonym captures = "(nat \<times> jsstring) list"

fun rx_run :: "rx \<Rightarrow> jsstring \<times> captures \<Rightarrow> (jsstring \<times> captures) list" where
  "rx_run (Chr p) (s, g) = (case s of [] \<Rightarrow> [] | c # cs \<Rightarrow> if p c then [(cs, g)] else [])"
| "rx_run (Star p) (s, g) = map (\<lambda>k. (drop k s, g)) (rev [0..<Suc (length (takeWhile p s))])"
| "rx_run (Plus p) (s, g) = map (\<lambda>k. (drop k s, g)) (rev [1..<Suc (length (takeWhile p s))])"
| "rx_run (Opt r) st = rx_run r st @ [st]"
| "rx_run (Seq a b) st = concat (map (rx_run b) (rx_run a st))"
| "rx_run (Alt a b) st = rx_run a st @ rx_run b st"
| "rx_run (Grp k r) (s, g) =
     map (\<lambda>(s', g'). (s', (k, take (length s - length s') s) # g')) (rx_run r (s, g))"
| "rx_run Eol (s, g) = (if s = [] then [(s, g)] else [])"
| "rx_run Eps st = [st]"

text \<open>
  A sequence of patterns; one character; a character and a word under the \<open>i\<close> flag, for
  ASCII lower-case letters (no other code unit has the same upper case as one of them in
  this mode).
\<close>

definition seqs :: "rx list \<Rightarrow> rx" where
  "seqs rs = foldr Seq rs Eps"

definition ch :: "char \<Rightarrow> rx" where
  "ch c = Chr (\<lambda>x. x = of_char c)"

definition ci :: "cu \<Rightarrow> cu \<Rightarrow> bool" where
  "ci c x \<longleftrightarrow> x = c \<or> x = c - 0x20"

definition word_ci :: "string \<Rightarrow> rx" where
  "word_ci w = seqs (map (\<lambda>c. Chr (ci (of_char c))) w)"

text \<open>
  \<open>RegExp.prototype.exec\<close> without the \<open>g\<close> flag: the leftmost start position with a
  match, and the captures of the first way of matching there.
\<close>

fun rx_exec_from :: "rx \<Rightarrow> nat \<Rightarrow> jsstring \<Rightarrow> (nat \<times> captures) option" where
  "rx_exec_from r i s =
     (case rx_run r (s, []) of
        (s', g) # _ \<Rightarrow> Some (i, g)
      | [] \<Rightarrow> (case s of [] \<Rightarrow> None | _ # cs \<Rightarrow> rx_exec_from r (Suc i) cs))"

declare rx_exec_from.simps [simp del]

definition rx_exec :: "rx \<Rightarrow> jsstring \<Rightarrow> (nat \<times> captures) option" where
  "rx_exec r s = rx_exec_from r 0 s"

text \<open>The text of capture group \<open>k\<close> of a match.\<close>

definition group :: "nat \<Rightarrow> captures \<Rightarrow> jsstring" where
  "group k g = (case map_of g k of Some t \<Rightarrow> t | None \<Rightarrow> [])"

text \<open>
  \<open>s.split(r)\<close> for a pattern without capture groups: \<open>acc\<close> holds, reversed, the piece
  read so far. A match that is empty at the start of a piece is no separator.
\<close>

function split_from :: "rx \<Rightarrow> jsstring \<Rightarrow> jsstring \<Rightarrow> jsstring list" where
  "split_from r acc s =
     (case s of
        [] \<Rightarrow> [rev acc]
      | c # cs \<Rightarrow>
          (case rx_run r (s, []) of
             [] \<Rightarrow> split_from r (c # acc) cs
           | (s', _) # _ \<Rightarrow>
               if length s' < length s then rev acc # split_from r [] s'
               else if acc = [] then split_from r [c] cs
               else rev acc # split_from r [] s))"
  by pat_completeness auto
termination
  by (relation "measure (\<lambda>(r, acc, s). 2 * length s + (if acc = [] then 0 else 1))") auto

declare split_from.simps [simp del]

definition split_rx :: "rx \<Rightarrow> jsstring \<Rightarrow> jsstring list" where
  "split_rx r s = (if s = [] then (if rx_run r (s, []) = [] then [s] else []) else split_from r [] s)"

text \<open>
  \<open>s.replace(r, rep)\<close> with the \<open>g\<close> flag and a replacement without \<open>$\<close> patterns: every
  match, found left to right, is replaced; after an empty match the engine copies one code
  unit and goes on.
\<close>

function replace_g :: "rx \<Rightarrow> jsstring \<Rightarrow> jsstring \<Rightarrow> jsstring" where
  "replace_g r rep s =
     (case rx_run r (s, []) of
        [] \<Rightarrow> (case s of [] \<Rightarrow> [] | c # cs \<Rightarrow> c # replace_g r rep cs)
      | (s', _) # _ \<Rightarrow>
          if length s' < length s then rep @ replace_g r rep s'
          else (case s of [] \<Rightarrow> rep | c # cs \<Rightarrow> rep @ c # replace_g r rep cs))"
  by pat_completeness auto
termination
  by (relation "measure (\<lambda>(r, rep, s). length s)") auto

declare replace_g.simps [simp del]

section \<open>Title normalisation and hashing (background.js)\<close>

text \<open>
  \<open>toLowerCase\<close> and \<open>normalize\<close> belong to the JavaScript engine (the Unicode case and
  decomposition tables); \<open>normalizeTitle\<close> takes them as a parameter.
\<close>

datatype normal_form = NFD | NFKD

record js_runtime =
  toLowerCase :: "jsstring \<Rightarrow> jsstring"
  normalize :: "normal_form \<Rightarrow> jsstring \<Rightarrow> jsstring"

definition is_diacritic :: "cu \<Rightarrow> bool" where
  "is_diacritic c \<longleftrightarrow> 0x0300 \<le> c \<and> c \<le> 0x036F"

definition is_space_tnr :: "cu \<Rightarrow> bool" where
  "is_space_tnr c \<longleftrightarrow> is_space c \<or> c = 0x09 \<or> c = 0x0A \<or> c = 0x0D"

definition is_quote :: "cu \<Rightarrow> bool" where
  "is_quote c \<longleftrightarrow> c = 0x22 \<or> c = 0x27 \<or> c = 0x60"

definition normalizeTitle :: "js_runtime \<Rightarrow> jsstring \<Rightarrow> jsstring" where
  "normalizeTitle rt t =
     trim
       (replace_g (Plus is_quote) []
         (replace_g (Plus is_space_tnr) (js '' '')
           (replace_g (Chr is_diacritic) []
             (normalize rt NFKD (toLowerCase rt (str_or t []))))))"

text \<open>
  \<open>hashStr\<close>: djb2 on 32-bit integers (\<open>h |= 0\<close> wraps each step), read unsigned and
  printed in base 16.
\<close>

fun djb2 :: "32 word \<Rightarrow> jsstring \<Rightarrow> 32 word" where
  "djb2 h [] = h"
| "djb2 h (c # cs) = djb2 ((push_bit 5 h + h) + of_int c) cs"

definition hex_digit :: "int \<Rightarrow> cu" where
  "hex_digit d = (if d < 10 then 48 + d else 87 + d)"

function toString16 :: "int \<Rightarrow> jsstring" where
  "toString16 n =
     (if n < 16 then [hex_digit n] else toString16 (n div 16) @ [hex_digit (n mod 16)])"
  by pat_completeness auto
termination
  by (relation "measure nat") auto

declare toString16.simps [simp del]

definition hashStr :: "jsstring \<Rightarrow> jsstring" where
  "hashStr s = toString16 (uint (djb2 5381 s))"

text \<open>
  The normalisation as the specification words it: lower-case, decompose (in the form
  given) and strip the diacritics, collapse every run of whitespace to one space, strip the
  quote characters, trim.
\<close>

definition spec_strip_diacritics :: "jsstring \<Rightarrow> jsstring" where
  "spec_strip_diacritics s = filter (\<lambda>c. \<not> is_diacritic c) s"

fun spec_collapse_whitespace :: "jsstring \<Rightarrow> jsstring" where
  "spec_collapse_whitespace [] = []"
| "spec_collapse_whitespace [c] = [if is_space c then 0x20 else c]"
| "spec_collapse_whitespace (c # d # cs) =
     (if is_space c \<and> is_space d then spec_collapse_whitespace (d # cs)
      else (if is_space c then 0x20 else c) # spec_collapse_whitespace (d # cs))"

definition spec_strip_quotes :: "jsstring \<Rightarrow> jsstring" where
  "spec_strip_quotes s = filter (\<lambda>c. \<not> is_quote c) s"

definition spec_normalize :: "js_runtime \<Rightarrow> normal_form \<Rightarrow> jsstring \<Rightarrow> jsstring" where
  "spec_normalize rt form t =
     trim (spec_strip_quotes (spec_collapse_whitespace (spec_strip_diacritics
       (normalize rt form (toLowerCase rt t)))))"

section \<open>The Title Store (background.js)\<close>

record event =
  ev_ts :: int
  ev_type :: jsstring
  ev_title :: jsstring
  ev_videoId :: jsstring
  ev_href :: jsstring
  ev_page :: jsstring
  ev_platform :: jsstring

record entry =
  e_id :: jsstring
  e_title :: jsstring
  e_ts :: int
  e_platform :: jsstring

definition BATCH_RETENTION_DAYS :: int where
  "BATCH_RETENTION_DAYS = 14"

definition ARCHIVE_MAX :: nat where
  "ARCHIVE_MAX = 365"

definition keepAfter :: "int \<Rightarrow> int" where
  "keepAfter now = now - BATCH_RETENTION_DAYS * 24 * 60 * 60 * 1000"

text \<open>
  The loop of \<open>updateTitlesBatchFromEvent\<close>: the first entry with the id gets its
  timestamp refreshed and the loop stops; the flag is \<open>exists\<close>.
\<close>

fun refresh :: "jsstring \<Rightarrow> int \<Rightarrow> entry list \<Rightarrow> bool \<times> entry list" where
  "refresh i t [] = (False, [])"
| "refresh i t (x # xs) =
     (if e_id x = i then (True, x\<lparr>e_ts := max (num_or (e_ts x) 0) t\<rparr> # xs)
      else (case refresh i t xs of (b, ys) \<Rightarrow> (b, x # ys)))"

text \<open>
  \<open>updateTitlesBatchFromEvent\<close> as a function of the clock reading \<open>now\<close>, the event and
  the list read from storage; the result is the list it writes back.
\<close>

definition updateTitlesBatchFromEvent ::
    "js_runtime \<Rightarrow> int \<Rightarrow> event \<Rightarrow> entry list \<Rightarrow> entry list" where
  "updateTitlesBatchFromEvent rt now evt titles_batch =
     (let cleaned = filter (\<lambda>x. keepAfter now \<le> e_ts x) titles_batch;
          norm = normalizeTitle rt (ev_title evt)
      in if norm = [] then cleaned
         else
           let i = hashStr norm
           in case refresh i (num_or (ev_ts evt) now) cleaned of
                (True, cleaned') \<Rightarrow> cleaned'
              | (False, cleaned') \<Rightarrow>
                  cleaned' @ [\<lparr>e_id = i, e_title = ev_title evt, e_ts = num_or (ev_ts evt) now,
                               e_platform = str_or (ev_platform evt) (js ''youtube'')\<rparr>])"

text \<open>
  The own properties of an element of \<open>titles_batch\<close>, as the object literal of
  \<open>updateTitlesBatchFromEvent\<close> builds it.
\<close>

datatype jsval = Num int | Str jsstring

definition entry_object :: "entry \<Rightarrow> (string \<times> jsval) list" where
  "entry_object e =
     [(''id'', Str (e_id e)), (''title'', Str (e_title e)), (''ts'', Num (e_ts e)),
      (''platform'', Str (e_platform e))]"

text \<open>\<open>updateTitlesBatchFromEvent\<close> run for a sequence of events, each with its clock reading.\<close>

definition updates :: "js_runtime \<Rightarrow> (int \<times> event) list \<Rightarrow> entry list \<Rightarrow> entry list" where
  "updates rt steps b = foldl (\<lambda>acc (now, evt). updateTitlesBatchFromEvent rt now evt acc) b steps"

text \<open>The timestamp an update stores for a sighting: \<open>evt.ts || now\<close>.\<close>

definition sighting_ts :: "int \<times> event \<Rightarrow> int" where
  "sighting_ts step = num_or (ev_ts (snd step)) (fst step)"

text \<open>
  \<open>ackTitles\<close> and \<open>clearTitlesBatch\<close>, on the stored list. \<open>getTitlesBatch\<close> returns
  the stored list.
\<close>

definition ackTitles :: "jsstring list \<Rightarrow> entry list \<Rightarrow> entry list" where
  "ackTitles ids titles_batch =
     (if ids = [] then titles_batch
      else if titles_batch = [] then titles_batch
      else filter (\<lambda>x. e_id x \<notin> set ids) titles_batch)"

definition clearTitlesBatch :: "entry list" where
  "clearTitlesBatch = []"

definition getTitlesBatch :: "entry list \<Rightarrow> entry list" where
  "getTitlesBatch titles_batch = titles_batch"

text \<open>The stored lists that the Title Store's operations can produce from an empty store.\<close>

inductive reachable :: "js_runtime \<Rightarrow> entry list \<Rightarrow> bool" for rt :: js_runtime where
  reach_init: "reachable rt []"
| reach_update: "reachable rt b \<Longrightarrow> reachable rt (updateTitlesBatchFromEvent rt now evt b)"
| reach_ack: "reachable rt b \<Longrightarrow> reachable rt (ackTitles ids b)"
| reach_clear: "reachable rt b \<Longrightarrow> reachable rt clearTitlesBatch"

section \<open>Profile, archive and sync status (background.js)\<close>

text \<open>
  The four keys of \<open>chrome.storage.local\<close>. An absent key is \<open>None\<close> (\<open>[]\<close> for the two
  lists, which the code reads with that default). An optional string property is a
  \<open>jsstring option\<close>; \<open>opt_or\<close> is \<open>x || d\<close> on it.
\<close>

record profile =
  pr_t0 :: "(jsstring \<times> int) list"
  pr_t1 :: "(jsstring \<times> int) list"
  pr_updated_at :: "int option"

record piece =
  p_date :: "jsstring option"
  p_title :: "jsstring option"
  p_source :: "jsstring option"
  p_url :: "jsstring option"
  p_image_url :: "jsstring option"
  p_imageUrl :: "jsstring option"

record archived =
  a_date :: jsstring
  a_title :: jsstring
  a_source :: jsstring
  a_url :: jsstring
  a_image_url :: "jsstring option"
  a_imageUrl :: "jsstring option"

record store =
  titles_batch :: "entry list"
  profile_histogram :: "profile option"
  pieces_archive :: "archived list"
  last_webapp_sync_at :: "int option"

definition opt_or :: "jsstring option \<Rightarrow> jsstring \<Rightarrow> jsstring" where
  "opt_or a d = (case a of None \<Rightarrow> d | Some s \<Rightarrow> str_or s d)"

definition truthy :: "jsstring option \<Rightarrow> bool" where
  "truthy a = (case a of None \<Rightarrow> False | Some s \<Rightarrow> s \<noteq> [])"

text \<open>
  \<open>setProfileHistogram\<close>; \<open>now1\<close> and \<open>now2\<close> are its two readings of \<open>Date.now()\<close>.
\<close>

definition setProfileHistogram :: "int \<Rightarrow> int \<Rightarrow> profile \<Rightarrow> store \<Rightarrow> store" where
  "setProfileHistogram now1 now2 prof st =
     st\<lparr>profile_histogram := Some (prof\<lparr>pr_updated_at := Some now1\<rparr>),
        last_webapp_sync_at := Some now2\<rparr>"

definition getProfileHistogram :: "store \<Rightarrow> profile option" where
  "getProfileHistogram st = profile_histogram st"

text \<open>
  \<open>appendPiece\<close>; \<open>isostr\<close> is \<open>new Date().toISOString()\<close>, which is read only when the
  piece has no date, and \<open>now\<close> the later reading of \<open>Date.now()\<close>. \<open>archive_record\<close> is the
  object it puts in front.
\<close>

definition archive_record :: "jsstring \<Rightarrow> piece \<Rightarrow> archived" where
  "archive_record isostr pc =
     (let d = opt_or (p_date pc) (map (\<lambda>c. if c = 0x2D then 0x2F else c) (take 10 isostr));
          img = opt_or (p_image_url pc) (opt_or (p_imageUrl pc) [])
      in \<lparr>a_date = d, a_title = opt_or (p_title pc) [], a_source = opt_or (p_source pc) [],
           a_url = opt_or (p_url pc) [], a_image_url = Some img, a_imageUrl = Some img\<rparr>)"

definition appendPiece :: "jsstring \<Rightarrow> int \<Rightarrow> piece \<Rightarrow> store \<Rightarrow> store" where
  "appendPiece isostr now pc st =
     (let arr = archive_record isostr pc # pieces_archive st;
          cropped = take ARCHIVE_MAX arr
      in st\<lparr>pieces_archive := cropped, last_webapp_sync_at := Some now\<rparr>)"

text \<open>\<open>getArchive\<close>: the stored list, each element with both image keys filled in.\<close>

definition read_piece :: "archived \<Rightarrow> archived" where
  "read_piece p =
     (let img = opt_or (a_image_url p) (opt_or (a_imageUrl p) [])
      in if img \<noteq> [] \<and> (\<not> truthy (a_imageUrl p) \<or> \<not> truthy (a_image_url p))
         then p\<lparr>a_image_url := Some (opt_or (a_image_url p) img),
                a_imageUrl := Some (opt_or (a_imageUrl p) img)\<rparr>
         else p)"

definition getArchive :: "store \<Rightarrow> archived list" where
  "getArchive st = map read_piece (pieces_archive st)"

definition clearProfileAndArchive :: "int \<Rightarrow> store \<Rightarrow> store" where
  "clearProfileAndArchive now st =
     st\<lparr>profile_histogram := None, pieces_archive := [], last_webapp_sync_at := Some now\<rparr>"

text \<open>\<open>getStatus\<close>: \<open>st.last_webapp_sync_at || null\<close>.\<close>

definition getStatus :: "store \<Rightarrow> int option" where
  "getStatus st =
     (case last_webapp_sync_at st of None \<Rightarrow> None | Some t \<Rightarrow> if t = 0 then None else Some t)"

text \<open>A sequence of \<open>appendPiece\<close> calls, each with its two clock readings.\<close>

definition appendPieces :: "(jsstring \<times> int \<times> piece) list \<Rightarrow> store \<Rightarrow> store" where
  "appendPieces steps st = foldl (\<lambda>acc (isostr, now, pc). appendPiece isostr now pc acc) st steps"

section \<open>The feed observer (content.js)\<close>

text \<open>
  The payload that the content script sends with \<open>LCL_ADD_EVENT\<close>. A property that is
  absent reads as the empty string, 0 or the empty list: the code tests them with \<open>||\<close>
  only.
\<close>

record raw_event =
  r_ts :: int
  r_type :: jsstring
  r_platform :: jsstring
  r_variant :: jsstring
  r_videoId :: jsstring
  r_title :: jsstring
  r_channel :: jsstring
  r_length :: jsstring
  r_badges :: "jsstring list"
  r_position :: int
  r_href :: jsstring
  r_page :: jsstring

text \<open>
  \<open>parseInt(s, 10)\<close> on a string of digits, \<open>String(n)\<close> on a natural number and
  \<open>padStart(2, '0')\<close>. (Numbers are integers here: the model is exact below \<open>2^53\<close>.)
\<close>

definition parseInt :: "jsstring \<Rightarrow> int" where
  "parseInt s = foldl (\<lambda>a c. 10 * a + (c - 0x30)) 0 (takeWhile is_digit s)"

function String_num :: "int \<Rightarrow> jsstring" where
  "String_num n = (if n < 10 then [0x30 + n] else String_num (n div 10) @ [0x30 + n mod 10])"
  by pat_completeness auto
termination
  by (relation "measure nat") auto

declare String_num.simps [simp del]

definition pad :: "int \<Rightarrow> jsstring" where
  "pad x = (let t = String_num x in replicate (2 - length t) 0x30 @ t)"

text \<open>The three regular expressions of the duration clean-up, and that of the video id.\<close>

definition amount :: "string \<Rightarrow> rx" where
  "amount unit_name = seqs [Plus is_digit, Plus is_space, word_ci unit_name, Opt (Chr (ci 0x73))]"

definition durationSuffixRe :: rx where
  "durationSuffixRe =
     seqs
       [Opt (seqs [Star is_space, Opt (ch CHR ''-''), Star is_space]),
        Grp 1
          (Alt (seqs [amount ''hour'',
                      Opt (seqs [ch CHR '','', Star is_space, amount ''minute'']),
                      Opt (seqs [ch CHR '','', Star is_space, amount ''second''])])
          (Alt (seqs [amount ''minute'',
                      Opt (seqs [ch CHR '','', Star is_space, amount ''second''])])
               (amount ''second''))),
        Eol]"

definition partSeparatorRe :: rx where
  "partSeparatorRe = seqs [ch CHR '','', Star is_space]"

definition numMatchRe :: rx where
  "numMatchRe =
     seqs
       [Grp 1 (Plus is_digit), Plus is_space,
        Grp 2
          (Alt (seqs [word_ci ''hour'', Opt (Chr (ci 0x73))])
          (Alt (word_ci ''hour'')
          (Alt (seqs [word_ci ''minute'', Opt (Chr (ci 0x73))])
          (Alt (word_ci ''minute'')
          (Alt (seqs [word_ci ''second'', Opt (Chr (ci 0x73))])
               (word_ci ''second''))))))]"

definition is_id_char :: "cu \<Rightarrow> bool" where
  "is_id_char c \<longleftrightarrow>
     (0x41 \<le> c \<and> c \<le> 0x5A) \<or> (0x61 \<le> c \<and> c \<le> 0x7A) \<or> (0x30 \<le> c \<and> c \<le> 0x39) \<or>
     c = 0x5F \<or> c = 0x2D"

definition videoIdRe :: rx where
  "videoIdRe =
     seqs
       [Chr (\<lambda>x. x = 0x3F \<or> x = 0x26), ch CHR ''v'', ch CHR ''='',
        Grp 1 (seqs [Chr is_id_char, Chr is_id_char, Chr is_id_char, Chr is_id_char,
                     Chr is_id_char, Chr is_id_char, Star is_id_char])]"

definition startsWith :: "jsstring \<Rightarrow> jsstring \<Rightarrow> bool" where
  "startsWith s pre \<longleftrightarrow> take (length pre) s = pre"

definition absolute_href :: "jsstring \<Rightarrow> jsstring" where
  "absolute_href href =
     (if startsWith href (js ''http'') then href else js ''https://www.youtube.com'' @ href)"

definition extractVideoIdFromHref :: "jsstring \<Rightarrow> jsstring option" where
  "extractVideoIdFromHref href =
     (if href = [] then None
      else case rx_exec videoIdRe (absolute_href href) of
             Some (i, g) \<Rightarrow> Some (group 1 g)
           | None \<Rightarrow> None)"

text \<open>
  The duration clean-up of \<open>processNode\<close>: from \<open>rawTitle\<close> and \<open>length\<close> to their new
  values. \<open>duration_part\<close> is the body of the \<open>forEach\<close>, on the three counters.
\<close>

definition duration_part :: "int \<times> int \<times> int \<Rightarrow> jsstring \<Rightarrow> int \<times> int \<times> int" where
  "duration_part acc p =
     (case acc of (h, mi, s) \<Rightarrow>
        (case rx_exec numMatchRe p of
           None \<Rightarrow> (h, mi, s)
         | Some (i, g) \<Rightarrow>
             let val = parseInt (group 1 g)
             in if rx_exec (word_ci ''hour'') (group 2 g) \<noteq> None then (val, mi, s)
                else if rx_exec (word_ci ''minute'') (group 2 g) \<noteq> None then (h, val, s)
                else if rx_exec (word_ci ''second'') (group 2 g) \<noteq> None then (h, mi, val)
                else (h, mi, s)))"

definition clean_duration :: "jsstring \<Rightarrow> jsstring \<Rightarrow> jsstring \<times> jsstring" where
  "clean_duration rawTitle len =
     (case rx_exec durationSuffixRe rawTitle of
        None \<Rightarrow> (rawTitle, len)
      | Some (index, g) \<Rightarrow>
          let phrase = group 1 g;
              rawTitle' = trim (take index rawTitle)
          in if len \<noteq> [] then (rawTitle', len)
             else
               (case foldl duration_part (0, 0, 0) (split_rx partSeparatorRe phrase) of
                  (h, mi, s) \<Rightarrow>
                    (rawTitle',
                     if h \<noteq> 0 then String_num h @ js '':'' @ pad mi @ js '':'' @ pad s
                     else if mi \<noteq> 0 \<or> s \<noteq> 0 then String_num mi @ js '':'' @ pad s
                     else if s \<noteq> 0 then js ''0:'' @ pad s
                     else len)))"

text \<open>
  \<open>processNode\<close> from the point where the extraction has succeeded: \<open>extracted\<close> holds what
  \<open>extractDesktop\<close> or \<open>extractMobile\<close> read from the page (\<open>x_href\<close> is the anchor's
  \<open>href\<close> attribute, empty when absent); the observer's variables are \<open>seen\<close>,
  \<open>positionCounter\<close> and \<open>currentPath\<close>; \<open>now\<close> is the reading of \<open>Date.now()\<close>. The result
  is the payload sent with \<open>LCL_ADD_EVENT\<close>, if any.
\<close>

record extracted =
  x_href :: jsstring
  x_rawTitle :: jsstring
  x_channel :: jsstring
  x_length :: jsstring
  x_badges :: "jsstring list"

record observer =
  seen :: "jsstring list"
  positionCounter :: int
  currentPath :: jsstring

definition processNode ::
    "int \<Rightarrow> jsstring \<Rightarrow> extracted \<Rightarrow> observer \<Rightarrow> raw_event option \<times> observer" where
  "processNode now variant x ob =
     (let href = x_href x
      in case extractVideoIdFromHref href of
           None \<Rightarrow> (None, ob)
         | Some videoId \<Rightarrow>
             let key = videoId @ js ''|'' @ currentPath ob
             in if key \<in> set (seen ob) then (None, ob)
                else
                  (case clean_duration (x_rawTitle x) (x_length x) of
                     (rawTitle, len) \<Rightarrow>
                       let ob' = ob\<lparr>seen := key # seen ob, positionCounter := positionCounter ob + 1\<rparr>
                       in (Some
                            \<lparr>r_ts = now, r_type = js ''feed_video'', r_platform = js ''youtube'',
                             r_variant = variant, r_videoId = videoId, r_title = rawTitle,
                             r_channel = x_channel x, r_length = len, r_badges = x_badges x,
                             r_position = positionCounter ob', r_href = absolute_href href,
                             r_page = currentPath ob\<rparr>,
                           ob')))"

section \<open>The message listener (background.js)\<close>

text \<open>
  The state outside the listener: the storage area, the \<open>events\<close> object store of the
  database in key order, and the clock, which answers the \<open>k\<close>-th reading with
  \<open>w_clock k\<close>. Calls of the storage and database interfaces can throw (reject):
  \<open>w_faults\<close> says for each coming call, in order, whether it does and with what; past the
  end of the list no call throws. \<open>w_raised\<close> records the exceptions thrown so far; no code
  reads it.
\<close>

datatype exn = Exn jsstring

definition String_of :: "exn \<Rightarrow> jsstring" where
  "String_of e = (case e of Exn m \<Rightarrow> m)"

record instant =
  ms :: int
  toISOString :: jsstring

record world =
  w_store :: store
  w_events :: "event list"
  w_clock :: "nat \<Rightarrow> instant"
  w_tick :: nat
  w_faults :: "exn option list"
  w_raised :: "exn list"

type_synonym 'a io = "world \<Rightarrow> (exn + 'a) \<times> world"

definition return_io :: "'a \<Rightarrow> 'a io" where
  "return_io a w = (Inr a, w)"

definition bind_io :: "'a io \<Rightarrow> ('a \<Rightarrow> 'b io) \<Rightarrow> 'b io" where
  "bind_io m k w = (case m w of (Inl e, w') \<Rightarrow> (Inl e, w') | (Inr a, w') \<Rightarrow> k a w')"

definition catch_io :: "'a io \<Rightarrow> (exn \<Rightarrow> 'a io) \<Rightarrow> 'a io" where
  "catch_io m h w = (case m w of (Inl e, w') \<Rightarrow> h e w' | (Inr a, w') \<Rightarrow> (Inr a, w'))"

definition prim :: "(world \<Rightarrow> 'a \<times> world) \<Rightarrow> 'a io" where
  "prim f w =
     (case w_faults w of
        Some e # fs \<Rightarrow> (Inl e, w\<lparr>w_faults := fs, w_raised := w_raised w @ [e]\<rparr>)
      | None # fs \<Rightarrow> (case f (w\<lparr>w_faults := fs\<rparr>) of (a, w') \<Rightarrow> (Inr a, w'))
      | [] \<Rightarrow> (case f w of (a, w') \<Rightarrow> (Inr a, w')))"

definition new_Date :: "instant io" where
  "new_Date w = (Inr (w_clock w (w_tick w)), w\<lparr>w_tick := Suc (w_tick w)\<rparr>)"

definition Date_now :: "int io" where
  "Date_now = bind_io new_Date (\<lambda>d. return_io (ms d))"

definition getStore :: "store io" where
  "getStore = prim (\<lambda>w. (w_store w, w))"

definition setStore :: "(store \<Rightarrow> store) \<Rightarrow> unit io" where
  "setStore obj = prim (\<lambda>w. ((), w\<lparr>w_store := obj (w_store w)\<rparr>))"

definition openDB :: "unit io" where
  "openDB = prim (\<lambda>w. ((), w))"

definition addEvent :: "event \<Rightarrow> unit io" where
  "addEvent evt =
     bind_io openDB (\<lambda>db. prim (\<lambda>w. ((), w\<lparr>w_events := w_events w @ [evt]\<rparr>)))"

text \<open>
  \<open>getRecent\<close> walks the index \<open>by_ts\<close> backwards: the largest \<open>ts\<close> first and, among equal
  ones, the event added last first.
\<close>

definition getRecent :: "int \<Rightarrow> event list io" where
  "getRecent limit =
     bind_io openDB (\<lambda>db w. (Inr (take (nat limit) (rev (sort_key ev_ts (w_events w)))), w))"

definition clearAll :: "unit io" where
  "clearAll = bind_io openDB (\<lambda>db w. (Inr (), w\<lparr>w_events := []\<rparr>))"

definition ALLOWED_TYPES :: "jsstring list" where
  "ALLOWED_TYPES = [js ''feed_video'', js ''shorts_video'']"

definition sanitizeEvent :: "raw_event option \<Rightarrow> event option io" where
  "sanitizeEvent p =
     (case p of
        None \<Rightarrow> return_io None
      | Some p \<Rightarrow>
          if r_type p \<notin> set ALLOWED_TYPES then return_io None
          else
            let title = trim (str_or (r_title p) [])
            in if title = [] then return_io None
               else
                 bind_io (if r_ts p = 0 then Date_now else return_io (r_ts p)) (\<lambda>t.
                   return_io (Some
                     \<lparr>ev_ts = t, ev_type = r_type p, ev_title = title, ev_videoId = r_videoId p,
                      ev_href = r_href p, ev_page = r_page p,
                      ev_platform = str_or (r_platform p) (js ''youtube'')\<rparr>)))"

text \<open>
  The storage functions as the listener runs them: each reads the clock and the storage
  area and writes back what the function of the same name above computes.
\<close>

definition updateTitlesBatchFromEvent_io :: "js_runtime \<Rightarrow> event \<Rightarrow> unit io" where
  "updateTitlesBatchFromEvent_io rt evt =
     bind_io Date_now (\<lambda>now.
     bind_io getStore (\<lambda>st.
       setStore (\<lambda>s. s\<lparr>titles_batch := updateTitlesBatchFromEvent rt now evt (titles_batch st)\<rparr>)))"

text \<open>
  \<open>enqueueTitlesUpdate\<close> when no other update is pending: the update runs, and the
  \<open>catch\<close> at the end of the chain turns a rejection into a fulfilled promise.
\<close>

definition enqueueTitlesUpdate :: "js_runtime \<Rightarrow> event \<Rightarrow> unit io" where
  "enqueueTitlesUpdate rt evt =
     catch_io (updateTitlesBatchFromEvent_io rt evt) (\<lambda>e. return_io ())"

definition getTitlesBatch_io :: "entry list io" where
  "getTitlesBatch_io = bind_io getStore (\<lambda>st. return_io (getTitlesBatch (titles_batch st)))"

definition clearTitlesBatch_io :: "unit io" where
  "clearTitlesBatch_io = setStore (\<lambda>s. s\<lparr>titles_batch := clearTitlesBatch\<rparr>)"

definition ackTitles_io :: "jsstring list \<Rightarrow> unit io" where
  "ackTitles_io ids =
     (if ids = [] then return_io ()
      else bind_io getStore (\<lambda>st.
        if titles_batch st = [] then return_io ()
        else setStore (\<lambda>s. s\<lparr>titles_batch := ackTitles ids (titles_batch st)\<rparr>)))"

definition setProfileHistogram_io :: "profile \<Rightarrow> unit io" where
  "setProfileHistogram_io prof =
     bind_io Date_now (\<lambda>now1.
     bind_io Date_now (\<lambda>now2.
       setStore (setProfileHistogram now1 now2 prof)))"

definition getProfileHistogram_io :: "profile option io" where
  "getProfileHistogram_io = bind_io getStore (\<lambda>st. return_io (getProfileHistogram st))"

definition appendPiece_io :: "piece \<Rightarrow> unit io" where
  "appendPiece_io pc =
     bind_io getStore (\<lambda>st.
     bind_io (if truthy (p_date pc) then return_io []
              else bind_io new_Date (\<lambda>d. return_io (toISOString d))) (\<lambda>isostr.
     bind_io Date_now (\<lambda>now.
       setStore (\<lambda>s. s\<lparr>pieces_archive := pieces_archive (appendPiece isostr now pc st),
                         last_webapp_sync_at := Some now\<rparr>))))"

definition getArchive_io :: "archived list io" where
  "getArchive_io = bind_io getStore (\<lambda>st. return_io (getArchive st))"

definition clearProfileAndArchive_io :: "unit io" where
  "clearProfileAndArchive_io = bind_io Date_now (\<lambda>now. setStore (clearProfileAndArchive now))"

definition getStatus_io :: "int option io" where
  "getStatus_io = bind_io getStore (\<lambda>st. return_io (getStatus st))"

text \<open>
  A message, by its \<open>type\<close> and the arguments that the listener takes from it, and the
  object given to \<open>sendResponse\<close>.
\<close>

datatype request =
    LCL_ADD_EVENT "raw_event option"
  | LCL_GET_RECENT int
  | LCL_CLEAR
  | GET_TITLES
  | ACK_TITLES "jsstring list"
  | CLEAR_TITLES
  | SET_PROFILE profile
  | GET_PROFILE
  | APPEND_PIECE piece
  | GET_ARCHIVE
  | GET_STATUS
  | CLEAR_PROFILE_ARCHIVE
  | Other_type jsstring

datatype data =
    Events "event list"
  | Titles "entry list"
  | Profile "profile option"
  | Archive "archived list"
  | Status "int option"

record response =
  rs_ok :: bool
  rs_stored :: "bool option"
  rs_data :: "data option"
  rs_error :: "jsstring option"

definition ok_response :: response where
  "ok_response = \<lparr>rs_ok = True, rs_stored = None, rs_data = None, rs_error = None\<rparr>"

definition stored_response :: "bool \<Rightarrow> response" where
  "stored_response b = \<lparr>rs_ok = True, rs_stored = Some b, rs_data = None, rs_error = None\<rparr>"

definition data_response :: "data \<Rightarrow> response" where
  "data_response d = \<lparr>rs_ok = True, rs_stored = None, rs_data = Some d, rs_error = None\<rparr>"

definition error_response :: "exn \<Rightarrow> response" where
  "error_response e =
     \<lparr>rs_ok = False, rs_stored = None, rs_data = None, rs_error = Some (String_of e)\<rparr>"

text \<open>
  The body of the \<open>try\<close> block: the handler of the message, then \<open>sendResponse\<close>, whose
  argument is the result (\<open>None\<close> when no branch answers).
\<close>

fun handler :: "js_runtime \<Rightarrow> request \<Rightarrow> response option io" where
  "handler rt (LCL_ADD_EVENT p) =
     bind_io (sanitizeEvent p) (\<lambda>compact.
       case compact of
         Some evt \<Rightarrow>
           bind_io (addEvent evt) (\<lambda>u.
           bind_io (enqueueTitlesUpdate rt evt) (\<lambda>u.
             return_io (Some (stored_response True))))
       | None \<Rightarrow> return_io (Some (stored_response False)))"
| "handler rt (LCL_GET_RECENT limit) =
     bind_io (getRecent (num_or limit 200)) (\<lambda>d. return_io (Some (data_response (Events d))))"
| "handler rt LCL_CLEAR = bind_io clearAll (\<lambda>u. return_io (Some ok_response))"
| "handler rt GET_TITLES =
     bind_io getTitlesBatch_io (\<lambda>d. return_io (Some (data_response (Titles d))))"
| "handler rt (ACK_TITLES ids) = bind_io (ackTitles_io ids) (\<lambda>u. return_io (Some ok_response))"
| "handler rt CLEAR_TITLES = bind_io clearTitlesBatch_io (\<lambda>u. return_io (Some ok_response))"
| "handler rt (SET_PROFILE prof) =
     bind_io (setProfileHistogram_io prof) (\<lambda>u. return_io (Some ok_response))"
| "handler rt GET_PROFILE =
     bind_io getProfileHistogram_io (\<lambda>d. return_io (Some (data_response (Profile d))))"
| "handler rt (APPEND_PIECE pc) = bind_io (appendPiece_io pc) (\<lambda>u. return_io (Some ok_response))"
| "handler rt GET_ARCHIVE =
     bind_io getArchive_io (\<lambda>d. return_io (Some (data_response (Archive d))))"
| "handler rt GET_STATUS =
     bind_io getStatus_io (\<lambda>d. return_io (Some (data_response (Status d))))"
| "handler rt CLEAR_PROFILE_ARCHIVE =
     bind_io clearProfileAndArchive_io (\<lambda>u. return_io (Some ok_response))"
| "handler rt (Other_type t) = return_io None"

text \<open>The listener: the \<open>try\<close> block and its \<open>catch\<close>.\<close>

definition onMessage :: "js_runtime \<Rightarrow> request \<Rightarrow> world \<Rightarrow> response option \<times> world" where
  "onMessage rt msg w =
     (case handler rt msg w of
        (Inl e, w') \<Rightarrow> (Some (error_response e), w')
      | (Inr r, w') \<Rightarrow> (r, w'))"

definition last_sync :: "world \<Rightarrow> int option" where
  "last_sync w = last_webapp_sync_at (w_store w)"

section \<open>The web app's bridge (bridge.ts)\<close>

text \<open>
  What the page's event loop delivers after \<open>pmSend\<close> has posted its request: \<open>message\<close>
  events, with their \<open>data\<close> (\<open>None\<close> when it is no object), and the callback of the timer that
  \<open>pmSend\<close> set. An absent or otherwise falsy \<open>response\<close> is \<open>None\<close>.
\<close>

record envelope =
  en_namespace :: jsstring
  en_requestId :: jsstring
  en_response :: "response option"

datatype win_event = Message "envelope option" | TimerFired

definition PM_NAMESPACE_IN :: jsstring where
  "PM_NAMESPACE_IN = js ''thyself-bridge''"

definition PM_NAMESPACE_OUT :: jsstring where
  "PM_NAMESPACE_OUT = js ''thyself-extension''"

text \<open>
  The state of one call of \<open>pmSend\<close>: its request id, the delay of its timer, the flag
  \<open>done\<close>, whether its listener is still registered, and what its promise was resolved with
  (\<open>None\<close> while it is pending, \<open>Some None\<close> for \<open>null\<close>). A promise keeps its first
  resolution.
\<close>

record pending =
  pn_requestId :: jsstring
  pn_timeoutMs :: int
  pn_done :: bool
  pn_listening :: bool
  pn_result :: "response option option"

definition resolve :: "response option \<Rightarrow> pending \<Rightarrow> pending" where
  "resolve v p = (case pn_result p of None \<Rightarrow> p\<lparr>pn_result := Some v\<rparr> | Some x \<Rightarrow> p)"

definition pmSend_start :: "jsstring \<Rightarrow> int \<Rightarrow> pending" where
  "pmSend_start requestId timeoutMs =
     \<lparr>pn_requestId = requestId, pn_timeoutMs = timeoutMs, pn_done = False, pn_listening = True,
      pn_result = None\<rparr>"

definition listener :: "envelope option \<Rightarrow> pending \<Rightarrow> pending" where
  "listener data p =
     (case data of
        None \<Rightarrow> p
      | Some d \<Rightarrow>
          if en_namespace d \<noteq> PM_NAMESPACE_OUT \<or> en_requestId d \<noteq> pn_requestId p then p
          else resolve (en_response d) (p\<lparr>pn_done := True, pn_listening := False\<rparr>))"

definition deliver :: "pending \<Rightarrow> win_event \<Rightarrow> pending" where
  "deliver p ev =
     (case ev of
        Message data \<Rightarrow> if pn_listening p then listener data p else p
      | TimerFired \<Rightarrow> if \<not> pn_done p then resolve None (p\<lparr>pn_listening := False\<rparr>) else p)"

text \<open>
  \<open>pmSend\<close>: the resolution of its promise once the events of \<open>trace\<close> have been delivered.
  Without a window it resolves to \<open>null\<close> at once.
\<close>

definition pmSend :: "bool \<Rightarrow> jsstring \<Rightarrow> int \<Rightarrow> win_event list \<Rightarrow> response option option" where
  "pmSend has_window requestId timeoutMs trace =
     (if \<not> has_window then Some None
      else pn_result (foldl deliver (pmSend_start requestId timeoutMs) trace))"

text \<open>
  \<open>runtimeSend\<close>: \<open>direct_reply\<close> is what the callback of \<open>chrome.runtime.sendMessage\<close>
  receives, \<open>None\<close> also when the call throws.
\<close>

record page =
  has_window :: bool
  canUseRuntime :: bool
  EXTENSION_ID :: jsstring
  direct_reply :: "response option"

definition runtimeSend :: "page \<Rightarrow> response option" where
  "runtimeSend pg =
     (if \<not> canUseRuntime pg \<or> EXTENSION_ID pg = [] then None else direct_reply pg)"

text \<open>
  \<open>send\<close>: \<open>None\<close> while the relay attempt is pending; otherwise the value returned and
  whether \<open>runtimeSend\<close> was called. \<open>send\<close> calls \<open>pmSend\<close> with the default delay.
\<close>

record outcome =
  returned :: "response option"
  direct_used :: bool

definition default_timeoutMs :: int where
  "default_timeoutMs = 1500"

definition send :: "page \<Rightarrow> jsstring \<Rightarrow> win_event list \<Rightarrow> outcome option" where
  "send pg requestId trace =
     (case pmSend (has_window pg) requestId default_timeoutMs trace of
        None \<Rightarrow> None
      | Some (Some viaPM) \<Rightarrow> Some \<lparr>returned = Some viaPM, direct_used = False\<rparr>
      | Some None \<Rightarrow> Some \<lparr>returned = runtimeSend pg, direct_used = True\<rparr>)"

text \<open>A message that answers the request \<open>rid\<close>, and the messages before the timer fires.\<close>

definition answers :: "jsstring \<Rightarrow> win_event \<Rightarrow> bool" where
  "answers rid ev =
     (case ev of
        Message (Some d) \<Rightarrow> en_namespace d = PM_NAMESPACE_OUT \<and> en_requestId d = rid
      | Message None \<Rightarrow> False
      | TimerFired \<Rightarrow> False)"

definition before_timer :: "win_event list \<Rightarrow> win_event list" where
  "before_timer trace = takeWhile (\<lambda>ev. ev \<noteq> TimerFired) trace"

section \<open>The queue of Title Store updates (background.js)\<close>

text \<open>
  The service worker runs one callback at a time, and an \<open>async\<close> function gives way at
  each \<open>await\<close>. An update of the Title Store therefore takes three steps, between which
  other callbacks can run: it is called (and reads the clock), its \<open>getStore\<close> completes, its
  \<open>setStore\<close> completes (storage calls succeed here). \<open>phase\<close> is where a running update
  stands: called, or holding the list it has read.

  Promises are numbered. \<open>q_tail\<close> is the promise in \<open>__titlesQueue\<close>, at first the
  resolved promise 0. \<open>enqueueTitlesUpdate\<close> registers on it a callback that will call the
  update, and stores the promise of that chain, which settles when the update is over.
  \<open>q_waiting\<close> holds the registered callbacks (the promise each waits for, its event, its
  own promise), \<open>q_settled\<close> the settled promises. \<open>q_log\<close> records the updates that have
  written, in order; no step reads it.
\<close>

datatype phase = Started int event | Loaded int event "entry list"

record qstate =
  q_store :: "entry list"
  q_tail :: nat
  q_next :: nat
  q_settled :: "nat list"
  q_waiting :: "(nat \<times> event \<times> nat) list"
  q_running :: "(nat \<times> phase) list"
  q_log :: "(int \<times> event) list"

definition q_init :: "entry list \<Rightarrow> qstate" where
  "q_init b =
     \<lparr>q_store = b, q_tail = 0, q_next = 1, q_settled = [0], q_waiting = [], q_running = [],
      q_log = []\<rparr>"

text \<open>
  The steps: \<open>Enqueue evt\<close> is a call of \<open>enqueueTitlesUpdate\<close>; \<open>Call evt now\<close> a direct call
  of \<open>updateTitlesBatchFromEvent\<close>, past the queue; \<open>Start p now\<close> runs the callback whose
  promise is \<open>p\<close>, possible once the promise it waits for is settled; \<open>Read p\<close> and \<open>Write p\<close>
  complete the \<open>getStore\<close> and the \<open>setStore\<close> of the update \<open>p\<close>. A step that cannot be
  taken gives \<open>None\<close>.
\<close>

datatype label = Enqueue event | Call event int | Start nat int | Read nat | Write nat

fun step :: "js_runtime \<Rightarrow> label \<Rightarrow> qstate \<Rightarrow> qstate option" where
  "step rt (Enqueue evt) s =
     Some (s\<lparr>q_waiting := q_waiting s @ [(q_tail s, evt, q_next s)], q_tail := q_next s,
             q_next := Suc (q_next s)\<rparr>)"
| "step rt (Call evt now) s =
     Some (s\<lparr>q_running := q_running s @ [(q_next s, Started now evt)],
             q_next := Suc (q_next s)\<rparr>)"
| "step rt (Start p now) s =
     (case find (\<lambda>(q, evt, p'). p' = p) (q_waiting s) of
        None \<Rightarrow> None
      | Some (q, evt, p') \<Rightarrow>
          if q \<in> set (q_settled s)
          then Some (s\<lparr>q_waiting := filter (\<lambda>(q, evt, p'). p' \<noteq> p) (q_waiting s),
                       q_running := q_running s @ [(p, Started now evt)]\<rparr>)
          else None)"
| "step rt (Read p) s =
     (case map_of (q_running s) p of
        Some (Started now evt) \<Rightarrow>
          Some (s\<lparr>q_running :=
                    map (\<lambda>(p', ph). if p' = p then (p', Loaded now evt (q_store s)) else (p', ph))
                      (q_running s)\<rparr>)
      | _ \<Rightarrow> None)"
| "step rt (Write p) s =
     (case map_of (q_running s) p of
        Some (Loaded now evt snapshot) \<Rightarrow>
          Some (s\<lparr>q_store := updateTitlesBatchFromEvent rt now evt snapshot,
                  q_running := filter (\<lambda>(p', ph). p' \<noteq> p) (q_running s),
                  q_settled := p # q_settled s,
                  q_log := q_log s @ [(now, evt)]\<rparr>)
      | _ \<Rightarrow> None)"

fun run :: "js_runtime \<Rightarrow> label list \<Rightarrow> qstate \<Rightarrow> qstate option" where
  "run rt [] s = Some s"
| "run rt (l # ls) s = (case step rt l s of None \<Rightarrow> None | Some s' \<Rightarrow> run rt ls s')"

definition quiescent :: "qstate \<Rightarrow> bool" where
  "quiescent s \<longleftrightarrow> q_waiting s = [] \<and> q_running s = []"

fun enqueued :: "label list \<Rightarrow> event list" where
  "enqueued [] = []"
| "enqueued (Enqueue evt # ls) = evt # enqueued ls"
| "enqueued (l # ls) = enqueued ls"

fun is_call :: "label \<Rightarrow> bool" where
  "is_call (Call evt now) = True"
| "is_call l = False"

fun clock_readings :: "label list \<Rightarrow> int list" where
  "clock_readings [] = []"
| "clock_readings (Start p now # ls) = now # clock_readings ls"
| "clock_readings (l # ls) = clock_readings ls"

text \<open>
  The invariant of the queue when no update is called past it: the promises up to \<open>m\<close> are
  settled, \<open>m\<close> updates have written, the stored list is what they produce one after the
  other (\<open>lane_base\<close>); either no update is running and the callbacks wait in line
  (\<open>lane_idle\<close>), or the one update that is running is the next in line (\<open>lane_busy\<close>).
  \<open>nows\<close> are the clock readings taken and \<open>enq\<close> the events enqueued so far.
\<close>

definition lane_base :: "js_runtime \<Rightarrow> entry list \<Rightarrow> int set \<Rightarrow> qstate \<Rightarrow> nat \<Rightarrow> bool" where
  "lane_base rt b0 nows s m \<longleftrightarrow>
     set (q_settled s) = {0..m} \<and> q_next s = Suc (q_tail s) \<and> m \<le> q_tail s \<and>
     length (q_log s) = m \<and> q_store s = updates rt (q_log s) b0 \<and>
     fst ` set (q_log s) \<subseteq> nows \<and>
     (\<forall>x \<in> set (q_waiting s). snd (snd x) = Suc (fst x))"

definition lane_idle :: "event list \<Rightarrow> qstate \<Rightarrow> nat \<Rightarrow> bool" where
  "lane_idle enq s m \<longleftrightarrow>
     q_running s = [] \<and> map (\<lambda>x. snd (snd x)) (q_waiting s) = [Suc m..<q_next s] \<and>
     map snd (q_log s) @ map (\<lambda>x. fst (snd x)) (q_waiting s) = enq"

definition lane_busy :: "int set \<Rightarrow> event list \<Rightarrow> qstate \<Rightarrow> nat \<Rightarrow> int \<Rightarrow> event \<Rightarrow> bool" where
  "lane_busy nows enq s m now evt \<longleftrightarrow>
     (q_running s = [(Suc m, Started now evt)] \<or>
      q_running s = [(Suc m, Loaded now evt (q_store s))]) \<and>
     now \<in> nows \<and> Suc m \<le> q_tail s \<and>
     map (\<lambda>x. snd (snd x)) (q_waiting s) = [Suc (Suc m)..<q_next s] \<and>
     map snd (q_log s) @ [evt] @ map (\<lambda>x. fst (snd x)) (q_waiting s) = enq"

definition lane :: "js_runtime \<Rightarrow> entry list \<Rightarrow> int set \<Rightarrow> event list \<Rightarrow> qstate \<Rightarrow> bool" where
  "lane rt b0 nows enq s \<longleftrightarrow>
     (\<exists>m. lane_base rt b0 nows s m \<and>
          (lane_idle enq s m \<or> (\<exists>now evt. lane_busy nows enq s m now evt)))"

section \<open>Properties of computations\<close>

text \<open>
  \<open>preserves g m\<close>: running \<open>m\<close> leaves the observation \<open>g\<close> of the world as it was.
  \<open>tidy m\<close>: \<open>m\<close> throws exactly when one of its calls did, and then that exception.
\<close>

definition preserves :: "(world \<Rightarrow> 'x) \<Rightarrow> 'a io \<Rightarrow> bool" where
  "preserves g m \<longleftrightarrow> (\<forall>w. g (snd (m w)) = g w)"

definition tidy :: "'a io \<Rightarrow> bool" where
  "tidy m \<longleftrightarrow>
     (\<forall>w. case m w of
             (Inl e, w') \<Rightarrow> w_raised w' = w_raised w @ [e]
           | (Inr a, w') \<Rightarrow> w_raised w' = w_raised w)"

section \<open>A runtime for Latin-1 strings\<close>

text \<open>
  The values of \<open>toLowerCase\<close> and \<open>normalize\<close> on strings of code units below U+0100:
  the lower-case mapping and the decomposition mappings of the Unicode Character Database
  for Basic Latin and the Latin-1 Supplement (no such character decomposes into more than
  one combining mark, so no reordering takes place). Code units from U+0100 on are left
  as they are, which is not what an engine does: \<open>latin1_runtime\<close> serves to evaluate
  Latin-1 inputs only.
\<close>

definition lower_latin1 :: "cu \<Rightarrow> cu" where
  "lower_latin1 c =
     (if (0x41 \<le> c \<and> c \<le> 0x5A) \<or> (0xC0 \<le> c \<and> c \<le> 0xDE \<and> c \<noteq> 0xD7) then c + 0x20 else c)"

definition canonical_latin1 :: "(cu \<times> jsstring) list" where
  "canonical_latin1 =
    [(0xC0, [0x0041, 0x0300]), (0xC1, [0x0041, 0x0301]), (0xC2, [0x0041, 0x0302]), (0xC3, [0x0041, 0x0303]),
     (0xC4, [0x0041, 0x0308]), (0xC5, [0x0041, 0x030A]), (0xC7, [0x0043, 0x0327]), (0xC8, [0x0045, 0x0300]),
     (0xC9, [0x0045, 0x0301]), (0xCA, [0x0045, 0x0302]), (0xCB, [0x0045, 0x0308]), (0xCC, [0x0049, 0x0300]),
     (0xCD, [0x0049, 0x0301]), (0xCE, [0x0049, 0x0302]), (0xCF, [0x0049, 0x0308]), (0xD1, [0x004E, 0x0303]),
     (0xD2, [0x004F, 0x0300]), (0xD3, [0x004F, 0x0301]), (0xD4, [0x004F, 0x0302]), (0xD5, [0x004F, 0x0303]),
     (0xD6, [0x004F, 0x0308]), (0xD9, [0x0055, 0x0300]), (0xDA, [0x0055, 0x0301]), (0xDB, [0x0055, 0x0302]),
     (0xDC, [0x0055, 0x0308]), (0xDD, [0x0059, 0x0301]), (0xE0, [0x0061, 0x0300]), (0xE1, [0x0061, 0x0301]),
     (0xE2, [0x0061, 0x0302]), (0xE3, [0x0061, 0x0303]), (0xE4, [0x0061, 0x0308]), (0xE5, [0x0061, 0x030A]),
     (0xE7, [0x0063, 0x0327]), (0xE8, [0x0065, 0x0300]), (0xE9, [0x0065, 0x0301]), (0xEA, [0x0065, 0x0302]),
     (0xEB, [0x0065, 0x0308]), (0xEC, [0x0069, 0x0300]), (0xED, [0x0069, 0x0301]), (0xEE, [0x0069, 0x0302]),
     (0xEF, [0x0069, 0x0308]), (0xF1, [0x006E, 0x0303]), (0xF2, [0x006F, 0x0300]), (0xF3, [0x006F, 0x0301]),
     (0xF4, [0x006F, 0x0302]), (0xF5, [0x006F, 0x0303]), (0xF6, [0x006F, 0x0308]), (0xF9, [0x0075, 0x0300]),
     (0xFA, [0x0075, 0x0301]), (0xFB, [0x0075, 0x0302]), (0xFC, [0x0075, 0x0308]), (0xFD, [0x0079, 0x0301]),
     (0xFF, [0x0079, 0x0308])]"

definition compat_latin1 :: "(cu \<times> jsstring) list" where
  "compat_latin1 =
    [(0xA0, [0x0020]), (0xA8, [0x0020, 0x0308]), (0xAA, [0x0061]), (0xAF, [0x0020, 0x0304]),
     (0xB2, [0x0032]), (0xB3, [0x0033]), (0xB4, [0x0020, 0x0301]), (0xB5, [0x03BC]),
     (0xB8, [0x0020, 0x0327]), (0xB9, [0x0031]), (0xBA, [0x006F]), (0xBC, [0x0031, 0x2044, 0x0034]),
     (0xBD, [0x0031, 0x2044, 0x0032]), (0xBE, [0x0033, 0x2044, 0x0034])]"

definition decompose_latin1 :: "normal_form \<Rightarrow> cu \<Rightarrow> jsstring" where
  "decompose_latin1 f c =
     (case map_of canonical_latin1 c of
        Some d \<Rightarrow> d
      | None \<Rightarrow>
          (case f of
             NFKD \<Rightarrow> (case map_of compat_latin1 c of Some d \<Rightarrow> d | None \<Rightarrow> [c])
           | NFD \<Rightarrow> [c]))"

definition latin1_runtime :: js_runtime where
  "latin1_runtime =
     \<lparr>toLowerCase = map lower_latin1,
      normalize = (\<lambda>f s. concat (map (decompose_latin1 f) s))\<rparr>"

section \<open>Example data\<close>

definition mk_event :: "int \<Rightarrow> string \<Rightarrow> event" where
  "mk_event t title =
     \<lparr>ev_ts = t, ev_type = js ''feed_video'', ev_title = js title, ev_videoId = js ''dQw4w9WgXcQ'',
      ev_href = js ''https://www.youtube.com/watch?v=dQw4w9WgXcQ'', ev_page = js ''/'',
      ev_platform = js ''youtube''\<rparr>"

definition mk_entry :: "string \<Rightarrow> int \<Rightarrow> entry" where
  "mk_entry title t =
     \<lparr>e_id = hashStr (normalizeTitle latin1_runtime (js title)), e_title = js title, e_ts = t,
      e_platform = js ''youtube''\<rparr>"

definition mk_piece :: "string \<Rightarrow> piece" where
  "mk_piece title =
     \<lparr>p_date = None, p_title = Some (js title), p_source = None, p_url = Some (js ''http://x''),
      p_image_url = None, p_imageUrl = None\<rparr>"

definition empty_store :: store where
  "empty_store =
     \<lparr>titles_batch = [], profile_histogram = None, pieces_archive = [],
      last_webapp_sync_at = None\<rparr>"

definition mk_raw :: "int \<Rightarrow> string \<Rightarrow> raw_event" where
  "mk_raw t title =
     \<lparr>r_ts = t, r_type = js ''feed_video'', r_platform = js ''youtube'', r_variant = js ''desktop'',
      r_videoId = js ''dQw4w9WgXcQ'', r_title = js title, r_channel = [], r_length = [],
      r_badges = [], r_position = 1, r_href = js ''https://www.youtube.com/watch?v=dQw4w9WgXcQ'',
      r_page = js ''/''\<rparr>"

definition mk_world :: "store \<Rightarrow> int \<Rightarrow> exn option list \<Rightarrow> world" where
  "mk_world st t faults =
     \<lparr>w_store = st, w_events = [],
      w_clock = (\<lambda>k. \<lparr>ms = t, toISOString = js ''2026-11-02T08:00:00.000Z''\<rparr>),
      w_tick = 0, w_faults = faults, w_raised = []\<rparr>"

text \<open>
  The scenario of two sightings of one title on two videos of the home page, at times 0 and
  100, each sent to the listener as it is made.
\<close>

definition breaking_news :: "string \<Rightarrow> extracted" where
  "breaking_news video =
     \<lparr>x_href = js ''/watch?v='' @ js video,
      x_rawTitle = js ''Breaking News Today - 3 minutes, 12 seconds'',
      x_channel = js ''Some Channel'', x_length = [], x_badges = []\<rparr>"

definition observer0 :: observer where
  "observer0 = \<lparr>seen = [], positionCounter = 0, currentPath = js ''/''\<rparr>"

definition sighting1 :: "raw_event option \<times> observer" where
  "sighting1 = processNode 0 (js ''desktop'') (breaking_news ''aaaaaaaaaa1'') observer0"

definition sighting2 :: "raw_event option \<times> observer" where
  "sighting2 = processNode 100 (js ''desktop'') (breaking_news ''bbbbbbbbbb2'') (snd sighting1)"

definition at_time :: "int \<Rightarrow> world \<Rightarrow> world" where
  "at_time t w = w\<lparr>w_clock := (\<lambda>k. \<lparr>ms = t, toISOString = js ''1970-01-01T00:00:00.000Z''\<rparr>)\<rparr>"

definition after_sightings :: world where
  "after_sightings =
     snd (onMessage latin1_runtime (LCL_ADD_EVENT (fst sighting2))
       (at_time 100
         (snd (onMessage latin1_runtime (LCL_ADD_EVENT (fst sighting1))
           (mk_world empty_store 0 [])))))"

definition reply :: "string \<Rightarrow> response option \<Rightarrow> win_event" where
  "reply rid r =
     Message (Some \<lparr>en_namespace = PM_NAMESPACE_OUT, en_requestId = js rid, en_response = r\<rparr>)"

definition request_echo :: "string \<Rightarrow> win_event" where
  "request_echo rid =
     Message (Some \<lparr>en_namespace = PM_NAMESPACE_IN, en_requestId = js rid, en_response = None\<rparr>)"

definition web_page :: page where
  "web_page =
     \<lparr>has_window = True, canUseRuntime = True, EXTENSION_ID = js ''abcdefghijklmnop'',
      direct_reply = Some (data_response (Status None))\<rparr>"

definition two_updates :: "event \<Rightarrow> event \<Rightarrow> int \<Rightarrow> label list" where
  "two_updates e1 e2 now =
     [Enqueue e1, Enqueue e2, Start 1 now, Read 1, Write 1, Start 2 now, Read 2, Write 2]"

section \<open>Title normalisation\<close>

lemma replace_g_Nil: "replace_g (Chr p) rep [] = []" "replace_g (Plus p) rep [] = []"
  by (simp_all add: replace_g.simps [of _ _ "[]"])

lemma replace_g_Chr_Cons:
  "replace_g (Chr p) rep (c # cs) =
     (if p c then rep @ replace_g (Chr p) rep cs else c # replace_g (Chr p) rep cs)"
  by (simp add: replace_g.simps [of _ _ "c # cs"])

lemma replace_g_Chr_filter: "replace_g (Chr p) [] s = filter (\<lambda>c. \<not> p c) s"
  by (induction s) (simp_all add: replace_g_Nil replace_g_Chr_Cons)

lemma rx_run_Plus_miss: "\<not> p c \<Longrightarrow> rx_run (Plus p) (c # cs, g) = []"
  by simp

lemma rx_run_Plus_hit:
  assumes "p c"
  shows "\<exists>rest. rx_run (Plus p) (c # cs, g) = (dropWhile p cs, g) # rest"
proof -
  let ?n = "length (takeWhile p cs)"
  have "rev [1..<Suc (Suc ?n)] = Suc ?n # rev [1..<Suc ?n]" by simp
  moreover have "drop (Suc ?n) (c # cs) = dropWhile p cs"
    by (simp add: dropWhile_eq_drop)
  ultimately show ?thesis using assms by simp
qed

lemma replace_g_Plus_Cons:
  "replace_g (Plus p) rep (c # cs) =
     (if p c then rep @ replace_g (Plus p) rep (dropWhile p cs)
      else c # replace_g (Plus p) rep cs)"
proof (cases "p c")
  case True
  from rx_run_Plus_hit [of p c cs "[]", OF True] obtain rest where
    "rx_run (Plus p) (c # cs, []) = (dropWhile p cs, []) # rest" ..
  moreover have "length (dropWhile p cs) < length (c # cs)"
    by (simp add: length_dropWhile_le le_imp_less_Suc)
  ultimately show ?thesis using True
    by (subst replace_g.simps) simp
next
  case False
  then show ?thesis
    by (subst replace_g.simps) (simp del: rx_run.simps add: rx_run_Plus_miss)
qed

lemma replace_g_Plus_filter: "replace_g (Plus p) [] s = filter (\<lambda>c. \<not> p c) s"
proof (induction "length s" arbitrary: s rule: less_induct)
  case less
  show ?case
  proof (cases s)
    case Nil
    then show ?thesis by (simp add: replace_g_Nil)
  next
    case (Cons c cs)
    show ?thesis
    proof (cases "p c")
      case True
      have "length (dropWhile p cs) < length s"
        using Cons by (simp add: length_dropWhile_le le_imp_less_Suc)
      from less [OF this] have "replace_g (Plus p) [] (dropWhile p cs) = filter (\<lambda>c. \<not> p c) (dropWhile p cs)" .
      also have "\<dots> = filter (\<lambda>c. \<not> p c) cs"
        by (induction cs) simp_all
      finally show ?thesis using Cons True by (simp add: replace_g_Plus_Cons)
    next
      case False
      have "length cs < length s" using Cons by simp
      from less [OF this] Cons False show ?thesis by (simp add: replace_g_Plus_Cons)
    qed
  qed
qed

lemma spec_collapse_space:
  "is_space c \<Longrightarrow>
     spec_collapse_whitespace (c # cs) = 0x20 # spec_collapse_whitespace (dropWhile is_space cs)"
proof (induction cs arbitrary: c)
  case Nil
  then show ?case by simp
next
  case (Cons d ds)
  then show ?case by (cases "is_space d") simp_all
qed

lemma spec_collapse_other:
  "\<not> is_space c \<Longrightarrow> spec_collapse_whitespace (c # cs) = c # spec_collapse_whitespace cs"
  by (cases cs) simp_all

lemma replace_g_collapse:
  "replace_g (Plus is_space) [0x20] s = spec_collapse_whitespace s"
proof (induction "length s" arbitrary: s rule: less_induct)
  case less
  show ?case
  proof (cases s)
    case Nil
    then show ?thesis by (simp add: replace_g_Nil)
  next
    case (Cons c cs)
    show ?thesis
    proof (cases "is_space c")
      case True
      have "length (dropWhile is_space cs) < length s"
        using Cons by (simp add: length_dropWhile_le le_imp_less_Suc)
      from less [OF this] Cons True show ?thesis
        by (simp add: replace_g_Plus_Cons spec_collapse_space)
    next
      case False
      have "length cs < length s" using Cons by simp
      from less [OF this] Cons False show ?thesis
        by (simp add: replace_g_Plus_Cons spec_collapse_other)
    qed
  qed
qed

lemma is_space_tnr_eq: "is_space_tnr = is_space"
  by (auto simp: is_space_tnr_def is_space_def fun_eq_iff)

text \<open>
  C7 (as amended). For every input string and every engine, \<open>normalizeTitle\<close> is the
  composition that the specification describes, with the compatibility decomposition
  (NFKD) as the decomposition: lower-casing, NFKD with the combining marks U+0300 to
  U+036F stripped, every run of whitespace collapsed to one space, the quote characters
  stripped, and the result trimmed.
\<close>

theorem normalizeTitle_spec: "normalizeTitle rt t = spec_normalize rt NFKD t"
  by (simp add: normalizeTitle_def spec_normalize_def spec_strip_quotes_def
      spec_strip_diacritics_def replace_g_Plus_filter replace_g_Chr_filter is_space_tnr_eq
      replace_g_collapse js_def str_or_def)

theorem normalizeTitle_not_canonical:
  "normalizeTitle latin1_runtime [0xB2] = js ''2'' \<and>
   spec_normalize latin1_runtime NFD [0xB2] = [0xB2]"
  by code_simp

theorem normalizeTitle_spec_witness:
  "spec_normalize latin1_runtime NFKD ([0x20, 0xC9] @ js ''te  \"2\"'' @ [0xB2, 0x0A]) = js ''ete 22''"
proof -
  have "normalizeTitle latin1_runtime ([0x20, 0xC9] @ js ''te  \"2\"'' @ [0xB2, 0x0A]) = js ''ete 22''"
    by code_simp
  with normalizeTitle_spec [of latin1_runtime "[0x20, 0xC9] @ js ''te  \"2\"'' @ [0xB2, 0x0A]"]
  show ?thesis by simp
qed

section \<open>The Title Store: deduplication and retention\<close>

lemma refresh_fst: "fst (refresh i t xs) \<longleftrightarrow> i \<in> e_id ` set xs"
  by (induction xs) (auto split: prod.splits)

lemma refresh_absent: "i \<notin> e_id ` set xs \<Longrightarrow> refresh i t xs = (False, xs)"
  by (induction xs) auto

lemma refresh_member:
  "y \<in> set (snd (refresh i t xs)) \<Longrightarrow>
     y \<in> set xs \<or> (\<exists>x \<in> set xs. e_id x = i \<and> y = x\<lparr>e_ts := max (num_or (e_ts x) 0) t\<rparr>)"
  by (induction xs) (auto split: prod.splits if_splits)

lemma refresh_keeps:
  "x \<in> set xs \<Longrightarrow>
     \<exists>y \<in> set (snd (refresh i t xs)).
        e_id y = e_id x \<and> e_title y = e_title x \<and> e_platform y = e_platform x \<and> e_ts x \<le> e_ts y"
  by (induction xs) (auto split: prod.splits if_splits simp: num_or_def)

lemma refresh_single:
  "filter (\<lambda>y. e_id y = h) xs = [x] \<Longrightarrow>
     \<exists>ys. refresh h t xs = (True, ys) \<and>
          filter (\<lambda>y. e_id y = h) ys = [x\<lparr>e_ts := max (num_or (e_ts x) 0) t\<rparr>]"
proof (induction xs)
  case Nil
  then show ?case by simp
next
  case (Cons a xs)
  show ?case
  proof (cases "e_id a = h")
    case True
    with Cons.prems have "a = x" and "filter (\<lambda>y. e_id y = h) xs = []" by auto
    with True show ?thesis by simp
  next
    case False
    with Cons.prems have "filter (\<lambda>y. e_id y = h) xs = [x]" by simp
    from Cons.IH [OF this] obtain ys where
      "refresh h t xs = (True, ys)"
      "filter (\<lambda>y. e_id y = h) ys = [x\<lparr>e_ts := max (num_or (e_ts x) 0) t\<rparr>]" by blast
    with False show ?thesis by simp
  qed
qed

lemma update_first:
  assumes "normalizeTitle rt (ev_title evt) = n" "n \<noteq> []" "hashStr n \<notin> e_id ` set b"
  shows "\<exists>x. filter (\<lambda>y. e_id y = hashStr n) (updateTitlesBatchFromEvent rt now evt b) = [x] \<and>
              e_ts x = sighting_ts (now, evt)"
proof -
  let ?c = "filter (\<lambda>x. keepAfter now \<le> e_ts x) b"
  from assms(3) have a: "hashStr n \<notin> e_id ` set ?c" by auto
  then have f: "filter (\<lambda>y. e_id y = hashStr n) ?c = []"
    unfolding filter_empty_conv by force
  from a have "refresh (hashStr n) (num_or (ev_ts evt) now) ?c = (False, ?c)"
    by (rule refresh_absent)
  with assms(1,2) f show ?thesis
    by (simp add: updateTitlesBatchFromEvent_def Let_def sighting_ts_def)
qed

lemma update_again:
  assumes "normalizeTitle rt (ev_title evt) = n" "n \<noteq> []"
    and "filter (\<lambda>y. e_id y = hashStr n) b = [x]" "keepAfter now \<le> e_ts x"
  shows "\<exists>x'. filter (\<lambda>y. e_id y = hashStr n) (updateTitlesBatchFromEvent rt now evt b) = [x'] \<and>
              e_ts x' = max (e_ts x) (sighting_ts (now, evt))"
proof -
  let ?c = "filter (\<lambda>x. keepAfter now \<le> e_ts x) b"
  have "filter (\<lambda>y. e_id y = hashStr n) ?c = filter (\<lambda>x. keepAfter now \<le> e_ts x) (filter (\<lambda>y. e_id y = hashStr n) b)"
    by (simp add: conj_commute)
  with assms(3,4) have "filter (\<lambda>y. e_id y = hashStr n) ?c = [x]" by simp
  from refresh_single [OF this, of "num_or (ev_ts evt) now"] obtain ys where
    "refresh (hashStr n) (num_or (ev_ts evt) now) ?c = (True, ys)"
    "filter (\<lambda>y. e_id y = hashStr n) ys = [x\<lparr>e_ts := max (num_or (e_ts x) 0) (num_or (ev_ts evt) now)\<rparr>]"
    by blast
  with assms(1,2) show ?thesis
    by (simp add: updateTitlesBatchFromEvent_def Let_def sighting_ts_def num_or_def)
qed

lemma updates_Cons:
  "updates rt ((now, evt) # steps) b = updates rt steps (updateTitlesBatchFromEvent rt now evt b)"
  by (simp add: updates_def)

lemma updates_again:
  assumes "\<forall>s \<in> set steps. normalizeTitle rt (ev_title (snd s)) = n" "n \<noteq> []"
    and "filter (\<lambda>y. e_id y = hashStr n) b = [x]"
    and "\<forall>j < length steps. keepAfter (fst (steps ! j)) \<le> e_ts x"
    and "\<forall>j < length steps. \<forall>i < j. keepAfter (fst (steps ! j)) \<le> sighting_ts (steps ! i)"
  shows "\<exists>x'. filter (\<lambda>y. e_id y = hashStr n) (updates rt steps b) = [x'] \<and>
              e_ts x' = Max (insert (e_ts x) (sighting_ts ` set steps))"
  using assms
proof (induction steps arbitrary: b x)
  case Nil
  then show ?case by (simp add: updates_def)
next
  case (Cons s steps)
  obtain now evt where s: "s = (now, evt)" by (cases s)
  from Cons.prems(1) s have n: "normalizeTitle rt (ev_title evt) = n" by simp
  from Cons.prems(4) s have k: "keepAfter now \<le> e_ts x" by fastforce
  from update_again [OF n Cons.prems(2) Cons.prems(3) k] obtain x' where
    x': "filter (\<lambda>y. e_id y = hashStr n) (updateTitlesBatchFromEvent rt now evt b) = [x']"
        "e_ts x' = max (e_ts x) (sighting_ts (now, evt))" by blast
  have w1: "\<forall>j < length steps. keepAfter (fst (steps ! j)) \<le> e_ts x'"
  proof (intro allI impI)
    fix j assume j: "j < length steps"
    with Cons.prems(4) have "keepAfter (fst ((s # steps) ! Suc j)) \<le> e_ts x" by (metis Suc_less_eq length_Cons)
    with x'(2) show "keepAfter (fst (steps ! j)) \<le> e_ts x'" by simp
  qed
  have w2: "\<forall>j < length steps. \<forall>i < j. keepAfter (fst (steps ! j)) \<le> sighting_ts (steps ! i)"
  proof (intro allI impI)
    fix j i assume "j < length steps" "i < j"
    with Cons.prems(5) have "keepAfter (fst ((s # steps) ! Suc j)) \<le> sighting_ts ((s # steps) ! Suc i)"
      by (metis Suc_less_eq length_Cons)
    then show "keepAfter (fst (steps ! j)) \<le> sighting_ts (steps ! i)" by simp
  qed
  from Cons.prems(1) have n': "\<forall>s \<in> set steps. normalizeTitle rt (ev_title (snd s)) = n" by simp
  from Cons.IH [OF n' Cons.prems(2) x'(1) w1 w2] obtain y where
    y: "filter (\<lambda>y. e_id y = hashStr n) (updates rt steps (updateTitlesBatchFromEvent rt now evt b)) = [y]"
       "e_ts y = Max (insert (e_ts x') (sighting_ts ` set steps))" by blast
  have "Max (insert (e_ts x') (sighting_ts ` set steps)) = Max (insert (e_ts x) (sighting_ts ` set (s # steps)))"
  proof (cases "steps = []")
    case True
    with x'(2) s show ?thesis by (simp add: max.commute)
  next
    case False
    then have "sighting_ts ` set steps \<noteq> {}" by simp
    with x'(2) s show ?thesis by (simp add: max.assoc)
  qed
  with y s show ?case by (simp add: updates_Cons)
qed

lemma update_unique:
  assumes "normalizeTitle rt (ev_title evt) = n" "n \<noteq> []"
    and "length (filter (\<lambda>y. e_id y = hashStr n) b) \<le> 1"
  shows "length (filter (\<lambda>y. e_id y = hashStr n) (updateTitlesBatchFromEvent rt now evt b)) = 1"
proof -
  let ?c = "filter (\<lambda>x. keepAfter now \<le> e_ts x) b"
  let ?t = "num_or (ev_ts evt) now"
  have "filter (\<lambda>y. e_id y = hashStr n) ?c =
        filter (\<lambda>x. keepAfter now \<le> e_ts x) (filter (\<lambda>y. e_id y = hashStr n) b)"
    by (simp add: conj_commute)
  moreover have "length (filter (\<lambda>x. keepAfter now \<le> e_ts x) (filter (\<lambda>y. e_id y = hashStr n) b))
      \<le> length (filter (\<lambda>y. e_id y = hashStr n) b)"
    by (rule length_filter_le)
  ultimately have "length (filter (\<lambda>y. e_id y = hashStr n) ?c) \<le> length (filter (\<lambda>y. e_id y = hashStr n) b)"
    by (simp only:)
  with assms(3) have le: "length (filter (\<lambda>y. e_id y = hashStr n) ?c) \<le> 1" by simp
  show ?thesis
  proof (cases "filter (\<lambda>y. e_id y = hashStr n) ?c")
    case Nil
    then have "hashStr n \<notin> e_id ` set ?c" unfolding filter_empty_conv by force
    then have "refresh (hashStr n) ?t ?c = (False, ?c)" by (rule refresh_absent)
    with assms(1,2) Nil show ?thesis
      by (simp add: updateTitlesBatchFromEvent_def Let_def)
  next
    case (Cons x xs)
    with le have "filter (\<lambda>y. e_id y = hashStr n) ?c = [x]" by simp
    from refresh_single [OF this, of ?t] obtain ys where
      "refresh (hashStr n) ?t ?c = (True, ys)"
      "filter (\<lambda>y. e_id y = hashStr n) ys = [x\<lparr>e_ts := max (num_or (e_ts x) 0) ?t\<rparr>]"
      by blast
    with assms(1,2) show ?thesis
      by (simp add: updateTitlesBatchFromEvent_def Let_def)
  qed
qed

lemma updates_unique:
  assumes "\<forall>s \<in> set steps. normalizeTitle rt (ev_title (snd s)) = n" "n \<noteq> []"
    and "length (filter (\<lambda>y. e_id y = hashStr n) b) \<le> 1" "steps \<noteq> []"
  shows "length (filter (\<lambda>y. e_id y = hashStr n) (updates rt steps b)) = 1"
  using assms
proof (induction steps arbitrary: b)
  case Nil
  then show ?case by simp
next
  case (Cons s steps)
  obtain now evt where s: "s = (now, evt)" by (cases s)
  from Cons.prems(1) s have n: "normalizeTitle rt (ev_title evt) = n" by simp
  from update_unique [OF n Cons.prems(2,3)]
  have one: "length (filter (\<lambda>y. e_id y = hashStr n) (updateTitlesBatchFromEvent rt now evt b)) = 1" .
  show ?case
  proof (cases "steps = []")
    case True
    with one s show ?thesis by (simp add: updates_def)
  next
    case False
    from Cons.prems(1) have "\<forall>s \<in> set steps. normalizeTitle rt (ev_title (snd s)) = n" by simp
    from Cons.IH [OF this Cons.prems(2) _ False, of "updateTitlesBatchFromEvent rt now evt b"] one s
    show ?thesis by (simp add: updates_Cons)
  qed
qed

text \<open>
  C1 (as amended). A non-empty sequence of updates whose titles all normalise to the same
  non-empty string \<open>n\<close>, run on a stored list with no entry of id \<open>hashStr n\<close>, leaves
  exactly one entry with id \<open>hashStr n\<close>. If moreover every sighting's timestamp
  (\<open>evt.ts || now\<close>) is still inside the retention window at each later update, the \<open>ts\<close>
  of that entry is the maximum of the sightings' timestamps.
\<close>

theorem dedup_same_title:
  assumes "steps \<noteq> []"
    and "\<forall>s \<in> set steps. normalizeTitle rt (ev_title (snd s)) = n"
    and "n \<noteq> []"
    and "hashStr n \<notin> e_id ` set b"
  shows "(\<exists>x. filter (\<lambda>y. e_id y = hashStr n) (updates rt steps b) = [x]) \<and>
         ((\<forall>j < length steps. \<forall>i < j. keepAfter (fst (steps ! j)) \<le> sighting_ts (steps ! i)) \<longrightarrow>
          (\<exists>x. filter (\<lambda>y. e_id y = hashStr n) (updates rt steps b) = [x] \<and>
               e_ts x = Max (sighting_ts ` set steps)))"
proof (intro conjI impI)
  from assms(4) have "filter (\<lambda>y. e_id y = hashStr n) b = []"
    unfolding filter_empty_conv by force
  then have "length (filter (\<lambda>y. e_id y = hashStr n) b) \<le> 1" by simp
  from updates_unique [OF assms(2,3) this assms(1)]
  show "\<exists>x. filter (\<lambda>y. e_id y = hashStr n) (updates rt steps b) = [x]"
    by (simp add: length_Suc_conv)
next
  assume w: "\<forall>j < length steps. \<forall>i < j. keepAfter (fst (steps ! j)) \<le> sighting_ts (steps ! i)"
  from assms(1) obtain s rest where steps: "steps = s # rest" by (cases steps) auto
  obtain now evt where s: "s = (now, evt)" by (cases s)
  from assms(2) steps s have n: "normalizeTitle rt (ev_title evt) = n" by simp
  from update_first [OF n assms(3) assms(4)] obtain x where
    x: "filter (\<lambda>y. e_id y = hashStr n) (updateTitlesBatchFromEvent rt now evt b) = [x]"
       "e_ts x = sighting_ts (now, evt)" by blast
  have w1: "\<forall>j < length rest. keepAfter (fst (rest ! j)) \<le> e_ts x"
  proof (intro allI impI)
    fix j assume "j < length rest"
    with w steps have "keepAfter (fst ((s # rest) ! Suc j)) \<le> sighting_ts ((s # rest) ! 0)"
      by (metis Suc_less_eq length_Cons zero_less_Suc)
    with x(2) s show "keepAfter (fst (rest ! j)) \<le> e_ts x" by simp
  qed
  have w2: "\<forall>j < length rest. \<forall>i < j. keepAfter (fst (rest ! j)) \<le> sighting_ts (rest ! i)"
  proof (intro allI impI)
    fix j i assume "j < length rest" "i < j"
    with w steps have "keepAfter (fst ((s # rest) ! Suc j)) \<le> sighting_ts ((s # rest) ! Suc i)"
      by (metis Suc_less_eq length_Cons)
    then show "keepAfter (fst (rest ! j)) \<le> sighting_ts (rest ! i)" by simp
  qed
  from assms(2) steps have n': "\<forall>s \<in> set rest. normalizeTitle rt (ev_title (snd s)) = n" by simp
  from updates_again [OF n' assms(3) x(1) w1 w2] obtain y where
    "filter (\<lambda>y. e_id y = hashStr n) (updates rt rest (updateTitlesBatchFromEvent rt now evt b)) = [y]"
    "e_ts y = Max (insert (e_ts x) (sighting_ts ` set rest))" by blast
  with steps s x(2)
  show "\<exists>x. filter (\<lambda>y. e_id y = hashStr n) (updates rt steps b) = [x] \<and>
            e_ts x = Max (sighting_ts ` set steps)"
    by (simp add: updates_Cons)
qed

theorem dedup_same_title_witness:
  "\<exists>x. filter (\<lambda>y. e_id y = hashStr (js ''hello world''))
          (updates latin1_runtime
             [(1000, mk_event 900 ''Hello World''), (2000, mk_event 1900 ''hello  \"WORLD\"'')] []) = [x] \<and>
       e_ts x = 1900"
proof -
  let ?steps = "[(1000 :: int, mk_event 900 ''Hello World''), (2000, mk_event 1900 ''hello  \"WORLD\"'')]"
  have h1: "?steps \<noteq> []" by simp
  have "normalizeTitle latin1_runtime (js ''Hello World'') = js ''hello world''" by code_simp
  moreover have "normalizeTitle latin1_runtime (js ''hello  \"WORLD\"'') = js ''hello world''" by code_simp
  ultimately have h2: "\<forall>s \<in> set ?steps. normalizeTitle latin1_runtime (ev_title (snd s)) = js ''hello world''"
    by (simp add: mk_event_def)
  have h3: "js ''hello world'' \<noteq> []" by (simp add: js_def)
  have h4: "hashStr (js ''hello world'') \<notin> e_id ` set []" by simp
  have h5: "\<forall>j < length ?steps. \<forall>i < j. keepAfter (fst (?steps ! j)) \<le> sighting_ts (?steps ! i)"
    by (simp add: less_Suc_eq keepAfter_def BATCH_RETENTION_DAYS_def sighting_ts_def num_or_def mk_event_def)
  have m: "Max (sighting_ts ` set ?steps) = 1900"
    by (simp add: sighting_ts_def num_or_def mk_event_def)
  from dedup_same_title [OF h1 h2 h3 h4] h5
  have "\<exists>x. filter (\<lambda>y. e_id y = hashStr (js ''hello world'')) (updates latin1_runtime ?steps []) = [x] \<and>
            e_ts x = Max (sighting_ts ` set ?steps)"
    by blast
  with m show ?thesis by simp
qed

theorem dedup_counterexample:
  "filter (\<lambda>y. e_id y = hashStr (normalizeTitle latin1_runtime (js ''\"'')))
     (updates latin1_runtime [(1000, mk_event 900 ''\"''), (2000, mk_event 1900 ''\"'')] []) = [] \<and>
   map e_ts (filter (\<lambda>y. e_id y = hashStr (normalizeTitle latin1_runtime (js ''News'')))
     (updates latin1_runtime
        [(8640000000, mk_event 4320000000 ''News''), (8640000000, mk_event 3456000000 ''News'')] []))
     = [3456000000] \<and>
   Max (sighting_ts ` set [(8640000000, mk_event 4320000000 ''News''),
                           (8640000000 :: int, mk_event 3456000000 ''News'')]) = 4320000000"
proof (intro conjI)
  show "filter (\<lambda>y. e_id y = hashStr (normalizeTitle latin1_runtime (js ''\"'')))
     (updates latin1_runtime [(1000, mk_event 900 ''\"''), (2000, mk_event 1900 ''\"'')] []) = []"
    by code_simp
  show "map e_ts (filter (\<lambda>y. e_id y = hashStr (normalizeTitle latin1_runtime (js ''News'')))
     (updates latin1_runtime
        [(8640000000, mk_event 4320000000 ''News''), (8640000000, mk_event 3456000000 ''News'')] []))
     = [3456000000]"
    by code_simp
  show "Max (sighting_ts ` set [(8640000000, mk_event 4320000000 ''News''),
                           (8640000000 :: int, mk_event 3456000000 ''News'')]) = 4320000000"
    by (simp add: sighting_ts_def num_or_def mk_event_def)
qed

lemma update_member:
  assumes "y \<in> set (updateTitlesBatchFromEvent rt now evt b)"
  shows "keepAfter now \<le> e_ts y \<or>
         y = \<lparr>e_id = hashStr (normalizeTitle rt (ev_title evt)), e_title = ev_title evt,
               e_ts = sighting_ts (now, evt), e_platform = str_or (ev_platform evt) (js ''youtube'')\<rparr>"
proof -
  let ?c = "filter (\<lambda>x. keepAfter now \<le> e_ts x) b"
  let ?t = "num_or (ev_ts evt) now"
  let ?i = "hashStr (normalizeTitle rt (ev_title evt))"
  have r: "keepAfter now \<le> e_ts z" if "z \<in> set (snd (refresh ?i ?t ?c))" for z
  proof -
    from refresh_member [OF that] show ?thesis by (auto simp: num_or_def)
  qed
  show ?thesis
  proof (cases "normalizeTitle rt (ev_title evt) = []")
    case True
    with assms show ?thesis by (simp add: updateTitlesBatchFromEvent_def Let_def)
  next
    case False
    obtain e ys where ry: "refresh ?i ?t ?c = (e, ys)" by (cases "refresh ?i ?t ?c")
    with r have "\<forall>z \<in> set ys. keepAfter now \<le> e_ts z" by simp
    with assms False ry show ?thesis
      by (cases e) (auto simp: updateTitlesBatchFromEvent_def Let_def sighting_ts_def)
  qed
qed

lemma update_keeps:
  assumes "x \<in> set b" "keepAfter now \<le> e_ts x"
  shows "\<exists>y \<in> set (updateTitlesBatchFromEvent rt now evt b).
           e_id y = e_id x \<and> e_title y = e_title x \<and> e_platform y = e_platform x \<and> e_ts x \<le> e_ts y"
proof -
  let ?c = "filter (\<lambda>x. keepAfter now \<le> e_ts x) b"
  let ?t = "num_or (ev_ts evt) now"
  let ?i = "hashStr (normalizeTitle rt (ev_title evt))"
  from assms have c: "x \<in> set ?c" by simp
  show ?thesis
  proof (cases "normalizeTitle rt (ev_title evt) = []")
    case True
    with c show ?thesis by (auto simp: updateTitlesBatchFromEvent_def Let_def)
  next
    case False
    obtain e ys where ry: "refresh ?i ?t ?c = (e, ys)" by (cases "refresh ?i ?t ?c")
    from refresh_keeps [OF c, of ?i ?t] ry have
      "\<exists>y \<in> set ys. e_id y = e_id x \<and> e_title y = e_title x \<and> e_platform y = e_platform x \<and> e_ts x \<le> e_ts y"
      by simp
    with False ry show ?thesis
      by (cases e) (auto simp: updateTitlesBatchFromEvent_def Let_def)
  qed
qed

text \<open>
  C3 (as amended). After an update at time \<open>now\<close>, every entry of the persisted list (the
  next \<open>list()\<close>) has \<open>ts\<close> inside the 14-day window, except possibly the entry appended
  for the incoming event, which carries the event's own timestamp; so when the event's
  timestamp is inside the window, every stored entry older than the window is absent. A
  stored entry with \<open>ts\<close> inside the window is kept, with its id, title and platform and a
  \<open>ts\<close> that is not smaller.
\<close>

theorem retention_on_update:
  "(\<forall>y \<in> set (getTitlesBatch (updateTitlesBatchFromEvent rt now evt b)).
       keepAfter now \<le> e_ts y \<or>
       y = \<lparr>e_id = hashStr (normalizeTitle rt (ev_title evt)), e_title = ev_title evt,
             e_ts = sighting_ts (now, evt), e_platform = str_or (ev_platform evt) (js ''youtube'')\<rparr>) \<and>
   (keepAfter now \<le> sighting_ts (now, evt) \<longrightarrow>
      (\<forall>x \<in> set b. e_ts x < keepAfter now \<longrightarrow>
         x \<notin> set (getTitlesBatch (updateTitlesBatchFromEvent rt now evt b)))) \<and>
   (\<forall>x \<in> set b. keepAfter now \<le> e_ts x \<longrightarrow>
      (\<exists>y \<in> set (getTitlesBatch (updateTitlesBatchFromEvent rt now evt b)).
         e_id y = e_id x \<and> e_title y = e_title x \<and> e_platform y = e_platform x \<and> e_ts x \<le> e_ts y))"
proof (intro conjI ballI impI)
  fix y assume "y \<in> set (getTitlesBatch (updateTitlesBatchFromEvent rt now evt b))"
  then show "keepAfter now \<le> e_ts y \<or>
       y = \<lparr>e_id = hashStr (normalizeTitle rt (ev_title evt)), e_title = ev_title evt,
             e_ts = sighting_ts (now, evt), e_platform = str_or (ev_platform evt) (js ''youtube'')\<rparr>"
    using update_member by (simp add: getTitlesBatch_def)
next
  fix x assume w: "keepAfter now \<le> sighting_ts (now, evt)" and x: "x \<in> set b" "e_ts x < keepAfter now"
  show "x \<notin> set (getTitlesBatch (updateTitlesBatchFromEvent rt now evt b))"
  proof
    assume "x \<in> set (getTitlesBatch (updateTitlesBatchFromEvent rt now evt b))"
    then have "x \<in> set (updateTitlesBatchFromEvent rt now evt b)" by (simp add: getTitlesBatch_def)
    from update_member [OF this] x(2) w show False by auto
  qed
next
  fix x assume "x \<in> set b" "keepAfter now \<le> e_ts x"
  then show "\<exists>y \<in> set (getTitlesBatch (updateTitlesBatchFromEvent rt now evt b)).
         e_id y = e_id x \<and> e_title y = e_title x \<and> e_platform y = e_platform x \<and> e_ts x \<le> e_ts y"
    using update_keeps by (simp add: getTitlesBatch_def)
qed

theorem retention_on_update_witness:
  "mk_entry ''Old'' 5 \<notin>
     set (getTitlesBatch (updateTitlesBatchFromEvent latin1_runtime 8640000000
            (mk_event 8639999000 ''News'') [mk_entry ''Old'' 5, mk_entry ''Fresh'' 8639998000])) \<and>
   (\<exists>y \<in> set (getTitlesBatch (updateTitlesBatchFromEvent latin1_runtime 8640000000
            (mk_event 8639999000 ''News'') [mk_entry ''Old'' 5, mk_entry ''Fresh'' 8639998000])).
      e_title y = js ''Fresh'' \<and> 8639998000 \<le> e_ts y)"
proof -
  let ?b = "[mk_entry ''Old'' 5, mk_entry ''Fresh'' 8639998000]"
  let ?evt = "mk_event 8639999000 ''News''"
  have w: "keepAfter 8640000000 \<le> sighting_ts (8640000000, ?evt)"
    by (simp add: keepAfter_def BATCH_RETENTION_DAYS_def sighting_ts_def num_or_def mk_event_def)
  have old: "mk_entry ''Old'' 5 \<in> set ?b" "e_ts (mk_entry ''Old'' 5) < keepAfter 8640000000"
    by (simp_all add: keepAfter_def BATCH_RETENTION_DAYS_def mk_entry_def)
  have fresh: "mk_entry ''Fresh'' 8639998000 \<in> set ?b"
    "keepAfter 8640000000 \<le> e_ts (mk_entry ''Fresh'' 8639998000)"
    by (simp_all add: keepAfter_def BATCH_RETENTION_DAYS_def mk_entry_def)
  note t = retention_on_update [of latin1_runtime 8640000000 ?evt ?b]
  from t w old have a: "mk_entry ''Old'' 5 \<notin>
     set (getTitlesBatch (updateTitlesBatchFromEvent latin1_runtime 8640000000 ?evt ?b))"
    by blast
  from t fresh have "\<exists>y \<in> set (getTitlesBatch (updateTitlesBatchFromEvent latin1_runtime 8640000000 ?evt ?b)).
      e_id y = e_id (mk_entry ''Fresh'' 8639998000) \<and> e_title y = e_title (mk_entry ''Fresh'' 8639998000) \<and>
      e_platform y = e_platform (mk_entry ''Fresh'' 8639998000) \<and> e_ts (mk_entry ''Fresh'' 8639998000) \<le> e_ts y"
    by blast
  then have b: "\<exists>y \<in> set (getTitlesBatch (updateTitlesBatchFromEvent latin1_runtime 8640000000 ?evt ?b)).
      e_title y = js ''Fresh'' \<and> 8639998000 \<le> e_ts y"
    by (auto simp: mk_entry_def)
  from a b show ?thesis by blast
qed

theorem retention_counterexample:
  "e_ts (mk_entry ''News'' 5) < keepAfter 8640000000 \<and>
   getTitlesBatch (updateTitlesBatchFromEvent latin1_runtime 8640000000 (mk_event 5 ''News'')
     [mk_entry ''News'' 5]) = [mk_entry ''News'' 5]"
  by code_simp

lemma reachable_inv:
  "reachable rt b \<Longrightarrow>
     \<forall>x \<in> set b. normalizeTitle rt (e_title x) \<noteq> [] \<and> e_id x = hashStr (normalizeTitle rt (e_title x))"
proof (induction rule: reachable.induct)
  case reach_init
  then show ?case by simp
next
  case (reach_update b now evt)
  show ?case
  proof
    fix y assume y: "y \<in> set (updateTitlesBatchFromEvent rt now evt b)"
    let ?c = "filter (\<lambda>x. keepAfter now \<le> e_ts x) b"
    let ?t = "num_or (ev_ts evt) now"
    let ?i = "hashStr (normalizeTitle rt (ev_title evt))"
    have c: "\<forall>x \<in> set ?c. normalizeTitle rt (e_title x) \<noteq> [] \<and> e_id x = hashStr (normalizeTitle rt (e_title x))"
      using reach_update.IH by simp
    have r: "normalizeTitle rt (e_title z) \<noteq> [] \<and> e_id z = hashStr (normalizeTitle rt (e_title z))"
      if "z \<in> set (snd (refresh ?i ?t ?c))" for z
      using refresh_member [OF that] c by auto
    show "normalizeTitle rt (e_title y) \<noteq> [] \<and> e_id y = hashStr (normalizeTitle rt (e_title y))"
    proof (cases "normalizeTitle rt (ev_title evt) = []")
      case True
      with y c show ?thesis by (simp add: updateTitlesBatchFromEvent_def Let_def)
    next
      case False
      obtain e ys where ry: "refresh ?i ?t ?c = (e, ys)" by (cases "refresh ?i ?t ?c")
      with r have "\<forall>z \<in> set ys. normalizeTitle rt (e_title z) \<noteq> [] \<and> e_id z = hashStr (normalizeTitle rt (e_title z))"
        by simp
      with y False ry show ?thesis
        by (cases e) (auto simp: updateTitlesBatchFromEvent_def Let_def)
    qed
  qed
next
  case (reach_ack b ids)
  then show ?case by (auto simp: ackTitles_def)
next
  case (reach_clear b)
  then show ?case by (simp add: clearTitlesBatch_def)
qed

text \<open>
  C10. An update whose title normalises to the empty string persists the stored list with
  the expired entries pruned and nothing else changed, and every entry of a list the Title
  Store can reach has a title that normalises to a non-empty string, whose hash is its id:
  no entry comes from an event with an empty normalised title.
\<close>

theorem empty_title_update:
  "(normalizeTitle rt (ev_title evt) = [] \<longrightarrow>
      updateTitlesBatchFromEvent rt now evt b = filter (\<lambda>x. keepAfter now \<le> e_ts x) b) \<and>
   (reachable rt b' \<longrightarrow>
      (\<forall>x \<in> set b'. normalizeTitle rt (e_title x) \<noteq> [] \<and>
                      e_id x = hashStr (normalizeTitle rt (e_title x))))"
  using reachable_inv by (simp add: updateTitlesBatchFromEvent_def Let_def)

theorem empty_title_update_witness:
  "updateTitlesBatchFromEvent latin1_runtime 8640000000 (mk_event 900 ''\"'')
     [mk_entry ''Old'' 5, mk_entry ''Fresh'' 8639998000] = [mk_entry ''Fresh'' 8639998000] \<and>
   reachable latin1_runtime [mk_entry ''News'' 900] \<and>
   normalizeTitle latin1_runtime (e_title (mk_entry ''News'' 900)) \<noteq> [] \<and>
   e_id (mk_entry ''News'' 900) = hashStr (normalizeTitle latin1_runtime (e_title (mk_entry ''News'' 900)))"
proof -
  have n: "normalizeTitle latin1_runtime (ev_title (mk_event 900 ''\"'')) = []" by code_simp
  have u: "updateTitlesBatchFromEvent latin1_runtime 1000 (mk_event 900 ''News'') [] = [mk_entry ''News'' 900]"
    by code_simp
  have "reachable latin1_runtime (updateTitlesBatchFromEvent latin1_runtime 1000 (mk_event 900 ''News'') [])"
    by (rule reach_update [OF reach_init])
  with u have r: "reachable latin1_runtime [mk_entry ''News'' 900]" by simp
  note t = empty_title_update [of latin1_runtime "mk_event 900 ''\"''" 8640000000
      "[mk_entry ''Old'' 5, mk_entry ''Fresh'' 8639998000]" "[mk_entry ''News'' 900]"]
  from t n have "updateTitlesBatchFromEvent latin1_runtime 8640000000 (mk_event 900 ''\"'')
     [mk_entry ''Old'' 5, mk_entry ''Fresh'' 8639998000] =
     filter (\<lambda>x. keepAfter 8640000000 \<le> e_ts x) [mk_entry ''Old'' 5, mk_entry ''Fresh'' 8639998000]"
    by blast
  then have a: "updateTitlesBatchFromEvent latin1_runtime 8640000000 (mk_event 900 ''\"'')
     [mk_entry ''Old'' 5, mk_entry ''Fresh'' 8639998000] = [mk_entry ''Fresh'' 8639998000]"
    by (simp add: keepAfter_def BATCH_RETENTION_DAYS_def mk_entry_def)
  from t r have "\<forall>x \<in> set [mk_entry ''News'' 900]. normalizeTitle latin1_runtime (e_title x) \<noteq> [] \<and>
                      e_id x = hashStr (normalizeTitle latin1_runtime (e_title x))"
    by blast
  with a r show ?thesis by simp
qed

section \<open>The archive\<close>

lemma read_piece_archive_record: "read_piece (archive_record isostr pc) = archive_record isostr pc"
  by (simp add: read_piece_def archive_record_def Let_def truthy_def opt_or_def str_or_def)

lemma appendPieces_Cons:
  "appendPieces ((isostr, now, pc) # steps) st = appendPieces steps (appendPiece isostr now pc st)"
  by (simp add: appendPieces_def)

lemma take_Cons_take: "take n (x # take n xs) = take n (x # xs)"
  by (cases n) simp_all

lemma pieces_archive_appendPieces:
  "steps \<noteq> [] \<Longrightarrow>
   pieces_archive (appendPieces steps st) =
     take ARCHIVE_MAX (rev (map (\<lambda>(isostr, now, pc). archive_record isostr pc) steps) @ pieces_archive st)"
proof (induction steps arbitrary: st)
  case Nil
  then show ?case by simp
next
  case (Cons s steps)
  obtain isostr now pc where s: "s = (isostr, now, pc)" by (cases s)
  show ?case
  proof (cases "steps = []")
    case True
    with s show ?thesis by (simp add: appendPieces_def appendPiece_def Let_def)
  next
    case False
    have "pieces_archive (appendPieces (s # steps) st) =
          take ARCHIVE_MAX (rev (map (\<lambda>(isostr, now, pc). archive_record isostr pc) steps) @
            take ARCHIVE_MAX (archive_record isostr pc # pieces_archive st))"
      using Cons.IH [OF False, of "appendPiece isostr now pc st"] s
      by (simp add: appendPieces_Cons appendPiece_def Let_def)
    also have "\<dots> = take ARCHIVE_MAX (rev (map (\<lambda>(isostr, now, pc). archive_record isostr pc) steps) @
            (archive_record isostr pc # pieces_archive st))"
      by (simp add: take_append min_def)
    finally show ?thesis using s by simp
  qed
qed

text \<open>
  C4. After more than 365 calls of \<open>appendPiece\<close>, on any store, \<open>getArchive\<close> returns
  exactly 365 entries: the records of the last 365 pieces appended, the newest first. The
  pieces appended before them, and whatever the archive held at the start, are dropped.
\<close>

theorem archive_bound:
  assumes "ARCHIVE_MAX < length steps"
  shows "getArchive (appendPieces steps st) =
           map (\<lambda>(isostr, now, pc). archive_record isostr pc)
             (rev (drop (length steps - ARCHIVE_MAX) steps)) \<and>
         length (getArchive (appendPieces steps st)) = 365"
proof -
  let ?f = "\<lambda>(isostr, now, pc). archive_record isostr pc"
  from assms have ne: "steps \<noteq> []" by auto
  from assms have "pieces_archive (appendPieces steps st) = take ARCHIVE_MAX (rev (map ?f steps))"
    by (simp add: pieces_archive_appendPieces [OF ne])
  then have p: "pieces_archive (appendPieces steps st) = map ?f (take ARCHIVE_MAX (rev steps))"
    by (simp add: take_map rev_map)
  have "map read_piece (map ?f xs) = map ?f xs" for xs :: "(jsstring \<times> int \<times> piece) list"
    by (induction xs) (auto simp: read_piece_archive_record)
  with p have g: "getArchive (appendPieces steps st) =
      map ?f (rev (drop (length steps - ARCHIVE_MAX) steps))"
    by (simp add: getArchive_def take_rev)
  from assms have "length (map ?f (rev (drop (length steps - ARCHIVE_MAX) steps))) = 365"
    by (simp add: ARCHIVE_MAX_def)
  with g show ?thesis by simp
qed

theorem archive_bound_witness:
  "length (getArchive (appendPieces (replicate 366 (js ''2026-11-02T08:00:00.000Z'', 1000, mk_piece ''X'')) empty_store)) = 365 \<and>
   hd (getArchive (appendPieces
        (replicate 365 (js ''2026-11-02T08:00:00.000Z'', 1000, mk_piece ''X'') @
         [(js ''2026-11-03T08:00:00.000Z'', 2000, mk_piece ''Y'')]) empty_store)) =
     archive_record (js ''2026-11-03T08:00:00.000Z'') (mk_piece ''Y'')"
proof -
  let ?x = "(js ''2026-11-02T08:00:00.000Z'', 1000 :: int, mk_piece ''X'')"
  let ?y = "(js ''2026-11-03T08:00:00.000Z'', 2000 :: int, mk_piece ''Y'')"
  have a: "ARCHIVE_MAX < length (replicate 366 ?x)" by (simp add: ARCHIVE_MAX_def)
  have b: "ARCHIVE_MAX < length (replicate 365 ?x @ [?y])" by (simp add: ARCHIVE_MAX_def)
  have t: "rev (drop (length (replicate 365 ?x @ [?y]) - ARCHIVE_MAX) (replicate 365 ?x @ [?y])) =
           ?y # replicate 364 ?x"
    by (simp add: ARCHIVE_MAX_def flip: take_rev)
  from archive_bound [OF a, of empty_store]
  have l: "length (getArchive (appendPieces (replicate 366 ?x) empty_store)) = 365"
    by (rule conjunct2)
  from archive_bound [OF b, of empty_store]
  have "getArchive (appendPieces (replicate 365 ?x @ [?y]) empty_store) =
          map (\<lambda>(isostr, now, pc). archive_record isostr pc)
            (rev (drop (length (replicate 365 ?x @ [?y]) - ARCHIVE_MAX) (replicate 365 ?x @ [?y])))"
    by (rule conjunct1)
  then have "hd (getArchive (appendPieces (replicate 365 ?x @ [?y]) empty_store)) =
          archive_record (js ''2026-11-03T08:00:00.000Z'') (mk_piece ''Y'')"
    by (simp only: t list.map list.sel prod.case)
  with l show ?thesis by (intro conjI)
qed


section \<open>The queue of updates\<close>

lemma updates_snoc:
  "updates rt (steps @ [(now, evt)]) b = updateTitlesBatchFromEvent rt now evt (updates rt steps b)"
  by (simp add: updates_def)

lemma lane_init: "lane rt b0 N [] (q_init b0)"
  unfolding lane_def lane_base_def lane_idle_def q_init_def
  by (auto simp: updates_def intro!: exI [of _ 0])

lemma laneE:
  assumes "lane rt b0 N enq s"
  obtains m where "lane_base rt b0 N s m"
    "lane_idle enq s m \<or> (\<exists>now evt. lane_busy N enq s m now evt)"
  using assms unfolding lane_def by blast

lemma lane_Enqueue:
  assumes "lane rt b0 N enq s" "step rt (Enqueue evt) s = Some s'"
  shows "lane rt b0 N (enq @ [evt]) s'"
proof -
  from assms(2) have s': "s' = s\<lparr>q_waiting := q_waiting s @ [(q_tail s, evt, q_next s)],
      q_tail := q_next s, q_next := Suc (q_next s)\<rparr>" by simp
  from assms(1) obtain m where b: "lane_base rt b0 N s m"
    and r: "lane_idle enq s m \<or> (\<exists>now e. lane_busy N enq s m now e)" by (rule laneE)
  from b s' have b': "lane_base rt b0 N s' m" by (auto simp: lane_base_def)
  from r show ?thesis
  proof
    assume "lane_idle enq s m"
    with b s' have "lane_idle (enq @ [evt]) s' m" by (auto simp: lane_base_def lane_idle_def)
    with b' show ?thesis unfolding lane_def by blast
  next
    assume "\<exists>now e. lane_busy N enq s m now e"
    then obtain now e where "lane_busy N enq s m now e" by blast
    with b s' have "lane_busy N (enq @ [evt]) s' m now e"
      by (auto simp: lane_base_def lane_busy_def)
    with b' show ?thesis unfolding lane_def by blast
  qed
qed

lemma find_first:
  assumes "find P xs = Some x"
  shows "P x \<and> x \<in> set xs"
  using assms by (induction xs) (auto split: if_splits)

lemma lane_Start:
  assumes "lane rt b0 N enq s" "step rt (Start p now) s = Some s'"
  shows "lane rt b0 (insert now N) enq s'"
proof -
  from assms(2) obtain q evt p' where
    f: "find (\<lambda>(q, evt, p'). p' = p) (q_waiting s) = Some (q, evt, p')" and
    q: "q \<in> set (q_settled s)" and
    s': "s' = s\<lparr>q_waiting := filter (\<lambda>(q, evt, p'). p' \<noteq> p) (q_waiting s),
               q_running := q_running s @ [(p, Started now evt)]\<rparr>"
    by (auto split: option.splits if_splits)
  from find_first [OF f] have p': "p' = p" and mem: "(q, evt, p) \<in> set (q_waiting s)" by auto
  from assms(1) obtain m where b: "lane_base rt b0 N s m"
    and r: "lane_idle enq s m \<or> (\<exists>now e. lane_busy N enq s m now e)" by (rule laneE)
  from mem b have pq: "p = Suc q" unfolding lane_base_def by fastforce
  from q b have qm: "q \<le> m" by (simp add: lane_base_def)
  from mem have pin: "p \<in> set (map (\<lambda>x. snd (snd x)) (q_waiting s))" by force
  have "\<not> lane_busy N enq s m now' e" for now' e
  proof
    assume "lane_busy N enq s m now' e"
    then have a: "map (\<lambda>x. snd (snd x)) (q_waiting s) = [Suc (Suc m)..<q_next s]"
      by (simp add: lane_busy_def)
    from pin have "p \<in> set [Suc (Suc m)..<q_next s]" unfolding a .
    with pq qm show False by simp
  qed
  with r have "lane_idle enq s m" by blast
  then have idle: "q_running s = []"
    and ids: "map (\<lambda>x. snd (snd x)) (q_waiting s) = [Suc m..<q_next s]"
    and en: "map snd (q_log s) @ map (\<lambda>x. fst (snd x)) (q_waiting s) = enq"
    by (simp_all add: lane_idle_def)
  from pin have "p \<in> set [Suc m..<q_next s]" unfolding ids .
  with pq qm have pm: "p = Suc m" and lt: "Suc m < q_next s" by auto
  from lt have "[Suc m..<q_next s] = Suc m # [Suc (Suc m)..<q_next s]" by (simp add: upt_conv_Cons)
  with ids obtain x W where W: "q_waiting s = x # W" "snd (snd x) = Suc m"
    "map (\<lambda>x. snd (snd x)) W = [Suc (Suc m)..<q_next s]" by (cases "q_waiting s") auto
  from W(1,2) f pm have x: "x = (q, evt, p')" by (cases x) simp
  have "\<forall>y \<in> set W. snd (snd y) \<noteq> p"
  proof
    fix y assume "y \<in> set W"
    then have "snd (snd y) \<in> set (map (\<lambda>x. snd (snd x)) W)" by force
    with W(3) pm show "snd (snd y) \<noteq> p" by simp
  qed
  then have "filter (\<lambda>(q, evt, p'). p' \<noteq> p) W = W"
    by (auto simp: filter_id_conv)
  with W(1) x p' have w': "filter (\<lambda>(q, evt, p'). p' \<noteq> p) (q_waiting s) = W" by simp
  from b s' W(1) w' have "lane_base rt b0 (insert now N) s' m"
    by (auto simp: lane_base_def)
  moreover from s' idle pm lt b w' W en x have "lane_busy (insert now N) enq s' m now evt"
    by (simp add: lane_busy_def lane_base_def)
  ultimately show ?thesis unfolding lane_def by blast
qed

lemma lane_Read:
  assumes "lane rt b0 N enq s" "step rt (Read p) s = Some s'"
  shows "lane rt b0 N enq s'"
proof -
  from assms(2) obtain now evt where
    f: "map_of (q_running s) p = Some (Started now evt)" and
    s': "s' = s\<lparr>q_running :=
                    map (\<lambda>(p', ph). if p' = p then (p', Loaded now evt (q_store s)) else (p', ph))
                      (q_running s)\<rparr>"
    by (auto split: option.splits phase.splits)
  from assms(1) obtain m where b: "lane_base rt b0 N s m"
    and r: "lane_idle enq s m \<or> (\<exists>now e. lane_busy N enq s m now e)" by (rule laneE)
  from r f have "lane_busy N enq s m now evt" "q_running s = [(Suc m, Started now evt)]" "p = Suc m"
    by (auto simp: lane_idle_def lane_busy_def split: if_splits)
  with s' have "lane_busy N enq s' m now evt" by (simp add: lane_busy_def)
  moreover from b s' have "lane_base rt b0 N s' m" by (simp add: lane_base_def)
  ultimately show ?thesis unfolding lane_def by blast
qed

lemma lane_Write:
  assumes "lane rt b0 N enq s" "step rt (Write p) s = Some s'"
  shows "lane rt b0 N enq s'"
proof -
  from assms(2) obtain now evt snapshot where
    f: "map_of (q_running s) p = Some (Loaded now evt snapshot)" and
    s': "s' = s\<lparr>q_store := updateTitlesBatchFromEvent rt now evt snapshot,
                  q_running := filter (\<lambda>(p', ph). p' \<noteq> p) (q_running s),
                  q_settled := p # q_settled s,
                  q_log := q_log s @ [(now, evt)]\<rparr>"
    by (auto split: option.splits phase.splits)
  from assms(1) obtain m where b: "lane_base rt b0 N s m"
    and r: "lane_idle enq s m \<or> (\<exists>now e. lane_busy N enq s m now e)" by (rule laneE)
  from r f have busy: "lane_busy N enq s m now evt"
    and run: "q_running s = [(Suc m, Loaded now evt (q_store s))]" "p = Suc m" "snapshot = q_store s"
    by (auto simp: lane_idle_def lane_busy_def split: if_splits)
  from b busy run s' have "lane_base rt b0 N s' (Suc m)"
    by (auto simp: lane_base_def lane_busy_def updates_snoc atLeastAtMostSuc_conv)
  moreover from busy run s' have "lane_idle enq s' (Suc m)"
    by (simp add: lane_idle_def lane_busy_def)
  ultimately show ?thesis unfolding lane_def by blast
qed

lemma lane_step:
  assumes "lane rt b0 N enq s" "step rt l s = Some s'" "\<not> is_call l"
  shows "lane rt b0 (N \<union> set (clock_readings [l])) (enq @ enqueued [l]) s'"
proof (cases l)
  case (Enqueue evt)
  with assms lane_Enqueue show ?thesis by simp
next
  case (Call evt now)
  with assms(3) show ?thesis by simp
next
  case (Start p now)
  with assms lane_Start [of rt b0 N enq s p now s'] show ?thesis by simp
next
  case (Read p)
  with assms lane_Read [of rt b0 N enq s p s'] show ?thesis by simp
next
  case (Write p)
  with assms lane_Write [of rt b0 N enq s p s'] show ?thesis by simp
qed

lemma clock_readings_Cons: "set (clock_readings (l # ls)) = set (clock_readings [l]) \<union> set (clock_readings ls)"
  by (cases l) auto

lemma enqueued_Cons: "enqueued (l # ls) = enqueued [l] @ enqueued ls"
  by (cases l) auto

lemma lane_run:
  assumes "lane rt b0 N enq s" "run rt ls s = Some s'" "\<forall>l \<in> set ls. \<not> is_call l"
  shows "lane rt b0 (N \<union> set (clock_readings ls)) (enq @ enqueued ls) s'"
  using assms
proof (induction ls arbitrary: s N enq)
  case Nil
  then show ?case by simp
next
  case (Cons l ls)
  from Cons.prems(2) obtain s1 where s1: "step rt l s = Some s1" "run rt ls s1 = Some s'"
    by (auto split: option.splits)
  from Cons.prems(3) have nc: "\<not> is_call l" "\<forall>l \<in> set ls. \<not> is_call l" by auto
  from lane_step [OF Cons.prems(1) s1(1) nc(1)]
  have "lane rt b0 (N \<union> set (clock_readings [l])) (enq @ enqueued [l]) s1" .
  from Cons.IH [OF this s1(2) nc(2)]
  show ?case
    by (simp add: clock_readings_Cons [of l ls] enqueued_Cons [of l ls] Un_assoc)
qed

lemma queue_serial:
  assumes "run rt sched (q_init b0) = Some s" "\<forall>l \<in> set sched. \<not> is_call l" "quiescent s"
  shows "\<exists>log. q_store s = updates rt log b0 \<and> map snd log = enqueued sched \<and>
               fst ` set log \<subseteq> set (clock_readings sched)"
proof -
  from lane_run [OF lane_init [of rt b0 "{}"] assms(1,2)]
  have "lane rt b0 (set (clock_readings sched)) (enqueued sched) s" by simp
  then obtain m where b: "lane_base rt b0 (set (clock_readings sched)) s m"
    and r: "lane_idle (enqueued sched) s m \<or>
            (\<exists>now e. lane_busy (set (clock_readings sched)) (enqueued sched) s m now e)"
    by (rule laneE)
  from r assms(3) have "map snd (q_log s) = enqueued sched"
    by (auto simp: quiescent_def lane_idle_def lane_busy_def)
  with b show ?thesis unfolding lane_base_def by blast
qed

lemma update_new:
  assumes "normalizeTitle rt (ev_title evt) = n" "n \<noteq> []" "hashStr n \<notin> e_id ` set b"
  shows "updateTitlesBatchFromEvent rt now evt b =
           filter (\<lambda>x. keepAfter now \<le> e_ts x) b @
           [\<lparr>e_id = hashStr n, e_title = ev_title evt, e_ts = sighting_ts (now, evt),
             e_platform = str_or (ev_platform evt) (js ''youtube'')\<rparr>]"
proof -
  let ?c = "filter (\<lambda>x. keepAfter now \<le> e_ts x) b"
  from assms(3) have "hashStr n \<notin> e_id ` set ?c" by auto
  then have "refresh (hashStr n) (num_or (ev_ts evt) now) ?c = (False, ?c)"
    by (rule refresh_absent)
  with assms(1,2) show ?thesis
    by (simp add: updateTitlesBatchFromEvent_def Let_def sighting_ts_def)
qed

text \<open>
  C2 (as amended). Two updates enqueued one after the other, \<open>e1\<close> then \<open>e2\<close>, run one at a
  time and in that order however their steps, and the second call of
  \<open>enqueueTitlesUpdate\<close>, are interleaved: when both are over, the stored list is what the
  update for \<open>e2\<close> makes of what the update for \<open>e1\<close> made of the initial list. If the two
  titles normalise to non-empty strings with different hashes, no entry had either hash, and
  the first sighting is inside the retention window at every clock reading, both entries are
  there afterwards.
\<close>

theorem no_lost_update:
  assumes "run rt sched (q_init b0) = Some s" and "\<forall>l \<in> set sched. \<not> is_call l"
    and "enqueued sched = [e1, e2]" and "quiescent s"
  shows "(\<exists>now1 now2. q_store s =
            updateTitlesBatchFromEvent rt now2 e2 (updateTitlesBatchFromEvent rt now1 e1 b0)) \<and>
         (normalizeTitle rt (ev_title e1) = n1 \<and> n1 \<noteq> [] \<and>
          normalizeTitle rt (ev_title e2) = n2 \<and> n2 \<noteq> [] \<and>
          hashStr n1 \<noteq> hashStr n2 \<and> hashStr n1 \<notin> e_id ` set b0 \<and> hashStr n2 \<notin> e_id ` set b0 \<and>
          (\<forall>now \<in> set (clock_readings sched). \<forall>now' \<in> set (clock_readings sched).
             keepAfter now' \<le> sighting_ts (now, e1)) \<longrightarrow>
          (\<exists>x \<in> set (q_store s). e_id x = hashStr n1 \<and> e_title x = ev_title e1) \<and>
          (\<exists>y \<in> set (q_store s). e_id y = hashStr n2 \<and> e_title y = ev_title e2))"
proof -
  from queue_serial [OF assms(1,2,4)] assms(3) obtain log where
    log: "q_store s = updates rt log b0" "map snd log = [e1, e2]"
         "fst ` set log \<subseteq> set (clock_readings sched)" by auto
  from log(2) obtain now1 now2 where l: "log = [(now1, e1), (now2, e2)]"
    by (auto simp: map_eq_Cons_conv)
  with log(3) have in1: "now1 \<in> set (clock_readings sched)" and in2: "now2 \<in> set (clock_readings sched)"
    by auto
  let ?b1 = "updateTitlesBatchFromEvent rt now1 e1 b0"
  from log(1) l have st: "q_store s = updateTitlesBatchFromEvent rt now2 e2 ?b1"
    by (simp add: updates_def)
  show ?thesis
  proof (intro conjI impI)
    from st show "\<exists>now1 now2. q_store s =
            updateTitlesBatchFromEvent rt now2 e2 (updateTitlesBatchFromEvent rt now1 e1 b0)" by blast
  next
    assume h: "normalizeTitle rt (ev_title e1) = n1 \<and> n1 \<noteq> [] \<and>
          normalizeTitle rt (ev_title e2) = n2 \<and> n2 \<noteq> [] \<and>
          hashStr n1 \<noteq> hashStr n2 \<and> hashStr n1 \<notin> e_id ` set b0 \<and> hashStr n2 \<notin> e_id ` set b0 \<and>
          (\<forall>now \<in> set (clock_readings sched). \<forall>now' \<in> set (clock_readings sched).
             keepAfter now' \<le> sighting_ts (now, e1))"
    then have n1: "normalizeTitle rt (ev_title e1) = n1" "n1 \<noteq> []" "hashStr n1 \<notin> e_id ` set b0"
      and n2: "normalizeTitle rt (ev_title e2) = n2" "n2 \<noteq> []" "hashStr n2 \<notin> e_id ` set b0"
      and d: "hashStr n1 \<noteq> hashStr n2"
      and w: "\<forall>now \<in> set (clock_readings sched). \<forall>now' \<in> set (clock_readings sched).
             keepAfter now' \<le> sighting_ts (now, e1)"
      by blast+
    let ?x = "\<lparr>e_id = hashStr n1, e_title = ev_title e1, e_ts = sighting_ts (now1, e1),
               e_platform = str_or (ev_platform e1) (js ''youtube'')\<rparr>"
    let ?y = "\<lparr>e_id = hashStr n2, e_title = ev_title e2, e_ts = sighting_ts (now2, e2),
               e_platform = str_or (ev_platform e2) (js ''youtube'')\<rparr>"
    have b1: "?b1 = filter (\<lambda>x. keepAfter now1 \<le> e_ts x) b0 @ [?x]"
      by (rule update_new [OF n1])
    from d n2(3) have "hashStr n2 \<notin> e_id ` set ?b1" unfolding b1 by auto
    from update_new [OF n2(1,2) this]
    have b2: "updateTitlesBatchFromEvent rt now2 e2 ?b1 = filter (\<lambda>x. keepAfter now2 \<le> e_ts x) ?b1 @ [?y]" .
    from w in1 in2 have "keepAfter now2 \<le> sighting_ts (now1, e1)" by blast
    then have "?x \<in> set (filter (\<lambda>x. keepAfter now2 \<le> e_ts x) ?b1)" unfolding b1 by simp
    then have x: "?x \<in> set (updateTitlesBatchFromEvent rt now2 e2 ?b1)" unfolding b2 by simp
    have y: "?y \<in> set (updateTitlesBatchFromEvent rt now2 e2 ?b1)" unfolding b2 by simp
    from x st show "\<exists>x \<in> set (q_store s). e_id x = hashStr n1 \<and> e_title x = ev_title e1"
      by (intro bexI [of _ ?x]) simp_all
    from y st show "\<exists>y \<in> set (q_store s). e_id y = hashStr n2 \<and> e_title y = ev_title e2"
      by (intro bexI [of _ ?y]) simp_all
  qed
qed

theorem no_lost_update_witness:
  "\<exists>s. run latin1_runtime (two_updates (mk_event 900 ''News'') (mk_event 950 ''Weather'') 1000)
          (q_init []) = Some s \<and>
       (\<exists>x \<in> set (q_store s). e_id x = hashStr (js ''news'') \<and> e_title x = js ''News'') \<and>
       (\<exists>y \<in> set (q_store s). e_id y = hashStr (js ''weather'') \<and> e_title y = js ''Weather'')"
proof -
  let ?e1 = "mk_event 900 ''News''"
  let ?e2 = "mk_event 950 ''Weather''"
  let ?sched = "two_updates ?e1 ?e2 1000"
  have "map_option quiescent (run latin1_runtime ?sched (q_init [])) = Some True" by code_simp
  then obtain s where s: "run latin1_runtime ?sched (q_init []) = Some s" "quiescent s" by auto
  have nc: "\<forall>l \<in> set ?sched. \<not> is_call l" by (simp add: two_updates_def)
  have en: "enqueued ?sched = [?e1, ?e2]" by (simp add: two_updates_def)
  have n1: "normalizeTitle latin1_runtime (ev_title ?e1) = js ''news''" by code_simp
  have n2: "normalizeTitle latin1_runtime (ev_title ?e2) = js ''weather''" by code_simp
  have ne: "js ''news'' \<noteq> []" "js ''weather'' \<noteq> []" by (simp_all add: js_def)
  have h: "hashStr (js ''news'') \<noteq> hashStr (js ''weather'')" by code_simp
  have fresh: "hashStr (js ''news'') \<notin> e_id ` set []" "hashStr (js ''weather'') \<notin> e_id ` set []"
    by simp_all
  have w: "\<forall>now \<in> set (clock_readings ?sched). \<forall>now' \<in> set (clock_readings ?sched).
             keepAfter now' \<le> sighting_ts (now, ?e1)"
    by (simp add: two_updates_def keepAfter_def BATCH_RETENTION_DAYS_def sighting_ts_def
        num_or_def mk_event_def)
  from no_lost_update [OF s(1) nc en s(2), of "js ''news''" "js ''weather''"] n1 ne n2 h fresh w
  have "(\<exists>x \<in> set (q_store s). e_id x = hashStr (js ''news'') \<and> e_title x = ev_title ?e1) \<and>
        (\<exists>y \<in> set (q_store s). e_id y = hashStr (js ''weather'') \<and> e_title y = ev_title ?e2)"
    by blast
  then have "(\<exists>x \<in> set (q_store s). e_id x = hashStr (js ''news'') \<and> e_title x = js ''News'') \<and>
        (\<exists>y \<in> set (q_store s). e_id y = hashStr (js ''weather'') \<and> e_title y = js ''Weather'')"
    by (simp add: mk_event_def)
  with s(1) show ?thesis by blast
qed

theorem two_titles_one_entry:
  "map_option (map e_title \<circ> q_store)
     (run latin1_runtime (two_updates (mk_event 900 ''News'') (mk_event 950 ''NEWS'') 1000) (q_init []))
     = Some [js ''News''] \<and>
   map_option (map e_title \<circ> q_store)
     (run latin1_runtime
        (two_updates (mk_event 5 ''News'') (mk_event 8639999000 ''Weather'') 8640000000) (q_init []))
     = Some [js ''Weather''] \<and>
   map_option (map e_title \<circ> q_store)
     (run latin1_runtime (two_updates (mk_event 900 ''\"'') (mk_event 950 ''News'') 1000) (q_init []))
     = Some [js ''News'']"
  by code_simp

lemma unqueued_updates_race:
  "map_option (map e_title \<circ> q_store)
     (run latin1_runtime
        [Call (mk_event 900 ''News'') 1000, Call (mk_event 950 ''Weather'') 1000,
         Read 1, Read 2, Write 1, Write 2] (q_init []))
     = Some [js ''Weather'']"
  by code_simp

section \<open>The message listener\<close>

lemma preserves_return: "preserves g (return_io a)"
  by (simp add: preserves_def return_io_def)

lemma preservesD: "preserves g m \<Longrightarrow> m w = (r, w') \<Longrightarrow> g w' = g w"
  unfolding preserves_def by (drule spec [of _ w]) simp

lemma preserves_bind:
  assumes "preserves g m" "\<And>a. preserves g (k a)"
  shows "preserves g (bind_io m k)"
  unfolding preserves_def
proof
  fix w
  obtain r w1 where m: "m w = (r, w1)" by (cases "m w")
  show "g (snd (bind_io m k w)) = g w"
  proof (cases r)
    case (Inl e)
    with m preservesD [OF assms(1) m] show ?thesis by (simp add: bind_io_def)
  next
    case (Inr a)
    obtain r2 w2 where k: "k a w1 = (r2, w2)" by (cases "k a w1")
    with m Inr preservesD [OF assms(1) m] preservesD [OF assms(2) k] show ?thesis
      by (simp add: bind_io_def)
  qed
qed

lemma preserves_catch:
  assumes "preserves g m" "\<And>e. preserves g (h e)"
  shows "preserves g (catch_io m h)"
  unfolding preserves_def
proof
  fix w
  obtain r w1 where m: "m w = (r, w1)" by (cases "m w")
  show "g (snd (catch_io m h w)) = g w"
  proof (cases r)
    case (Inl e)
    obtain r2 w2 where k: "h e w1 = (r2, w2)" by (cases "h e w1")
    with m Inl preservesD [OF assms(1) m] preservesD [OF assms(2) k] show ?thesis
      by (simp add: catch_io_def)
  next
    case (Inr a)
    with m preservesD [OF assms(1) m] show ?thesis by (simp add: catch_io_def)
  qed
qed

lemma prim_cases:
  assumes "prim f w = (r, w')"
  obtains (throws) e fs where "w_faults w = Some e # fs" "r = Inl e"
      "w' = w\<lparr>w_faults := fs, w_raised := w_raised w @ [e]\<rparr>"
    | (runs) "w_faults w = []" "r = Inr (fst (f w))" "w' = snd (f w)"
    | (runs') fs where "w_faults w = None # fs" "r = Inr (fst (f (w\<lparr>w_faults := fs\<rparr>)))"
      "w' = snd (f (w\<lparr>w_faults := fs\<rparr>))"
  using assms unfolding prim_def
  by (auto split: list.splits option.splits prod.splits)

lemma preserves_prim:
  assumes "\<And>w fs. g (w\<lparr>w_faults := fs\<rparr>) = g w" "\<And>w rs. g (w\<lparr>w_raised := rs\<rparr>) = g w"
    and "\<And>w. g (snd (f w)) = g w"
  shows "preserves g (prim f)"
  unfolding preserves_def
proof
  fix w
  obtain r w' where p: "prim f w = (r, w')" by (cases "prim f w")
  from p have "g w' = g w"
  proof (cases rule: prim_cases)
    case (throws e fs)
    with assms(1,2) show ?thesis by simp
  next
    case runs
    with assms(3) show ?thesis by simp
  next
    case (runs' fs)
    with assms(3) [of "w\<lparr>w_faults := fs\<rparr>"] assms(1) show ?thesis by simp
  qed
  with p show "g (snd (prim f w)) = g w" by simp
qed

lemma preserves_new_Date:
  "(\<And>w k. g (w\<lparr>w_tick := k\<rparr>) = g w) \<Longrightarrow> preserves g new_Date"
  by (simp add: preserves_def new_Date_def)

lemma preserves_Date_now:
  "(\<And>w k. g (w\<lparr>w_tick := k\<rparr>) = g w) \<Longrightarrow> preserves g Date_now"
  unfolding Date_now_def by (intro preserves_bind preserves_new_Date preserves_return)

lemma tidy_return: "tidy (return_io a)"
  by (simp add: tidy_def return_io_def)

lemma tidyD:
  assumes "tidy m" "m w = (r, w')"
  shows "(case r of Inl e \<Rightarrow> w_raised w' = w_raised w @ [e] | Inr a \<Rightarrow> w_raised w' = w_raised w)"
proof -
  from assms(1) have "case m w of
      (Inl e, w') \<Rightarrow> w_raised w' = w_raised w @ [e]
    | (Inr a, w') \<Rightarrow> w_raised w' = w_raised w"
    unfolding tidy_def by (rule spec)
  with assms(2) show ?thesis by simp
qed

lemma tidy_bind:
  assumes "tidy m" "\<And>a. tidy (k a)"
  shows "tidy (bind_io m k)"
  unfolding tidy_def
proof
  fix w
  obtain r w1 where m: "m w = (r, w1)" by (cases "m w")
  show "case bind_io m k w of
          (Inl e, w') \<Rightarrow> w_raised w' = w_raised w @ [e]
        | (Inr a, w') \<Rightarrow> w_raised w' = w_raised w"
  proof (cases r)
    case (Inl e)
    with m tidyD [OF assms(1) m] show ?thesis by (simp add: bind_io_def)
  next
    case (Inr a)
    obtain r2 w2 where k: "k a w1 = (r2, w2)" by (cases "k a w1")
    from Inr tidyD [OF assms(1) m] have "w_raised w1 = w_raised w" by simp
    with tidyD [OF assms(2) k] m Inr k show ?thesis
      by (cases r2) (simp_all add: bind_io_def)
  qed
qed

lemma tidy_prim:
  assumes "\<And>w. w_raised (snd (f w)) = w_raised w"
  shows "tidy (prim f)"
  unfolding tidy_def
proof
  fix w
  obtain r w' where p: "prim f w = (r, w')" by (cases "prim f w")
  from p have "case r of Inl e \<Rightarrow> w_raised w' = w_raised w @ [e] | Inr a \<Rightarrow> w_raised w' = w_raised w"
  proof (cases rule: prim_cases)
    case (throws e fs)
    then show ?thesis by simp
  next
    case runs
    with assms show ?thesis by simp
  next
    case (runs' fs)
    with assms [of "w\<lparr>w_faults := fs\<rparr>"] show ?thesis by simp
  qed
  with p show "case prim f w of
          (Inl e, w') \<Rightarrow> w_raised w' = w_raised w @ [e]
        | (Inr a, w') \<Rightarrow> w_raised w' = w_raised w" by simp
qed

lemma tidy_new_Date: "tidy new_Date"
  by (simp add: tidy_def new_Date_def)

lemma tidy_Date_now: "tidy Date_now"
  unfolding Date_now_def by (intro tidy_bind tidy_new_Date tidy_return)

lemma bind_io_Inr:
  assumes "bind_io m k w = (Inr r, w')"
  obtains a w1 where "m w = (Inr a, w1)" "k a w1 = (Inr r, w')"
  using assms unfolding bind_io_def by (auto split: prod.splits sum.splits)

lemma tidy_getStore: "tidy getStore"
  unfolding getStore_def by (rule tidy_prim) simp

lemma tidy_setStore: "tidy (setStore obj)"
  unfolding setStore_def by (rule tidy_prim) simp

lemma tidy_openDB: "tidy openDB"
  unfolding openDB_def by (rule tidy_prim) simp

lemma tidy_pure: "tidy (\<lambda>w. (Inr (f w), w))"
  by (simp add: tidy_def)

lemma tidy_addEvent: "tidy (addEvent evt)"
  unfolding addEvent_def by (intro tidy_bind tidy_openDB tidy_prim) simp

lemma tidy_getRecent: "tidy (getRecent limit)"
  unfolding getRecent_def by (intro tidy_bind tidy_openDB tidy_pure)

lemma tidy_clearAll: "tidy clearAll"
  unfolding clearAll_def by (intro tidy_bind tidy_openDB) (simp add: tidy_def)

lemma tidy_if: "tidy a \<Longrightarrow> tidy b \<Longrightarrow> tidy (if c then a else b)"
  by simp

lemma tidy_update: "tidy (updateTitlesBatchFromEvent_io rt evt)"
  unfolding updateTitlesBatchFromEvent_io_def
  by (intro tidy_bind tidy_Date_now tidy_getStore tidy_setStore)

lemma tidy_handler:
  assumes "\<And>p. msg \<noteq> LCL_ADD_EVENT p"
  shows "tidy (handler rt msg)"
proof (cases msg)
  case (LCL_ADD_EVENT p)
  with assms show ?thesis by blast
next
  case (LCL_GET_RECENT limit)
  then show ?thesis by (simp add: tidy_bind tidy_getRecent tidy_return)
next
  case LCL_CLEAR
  then show ?thesis by (simp add: tidy_bind tidy_clearAll tidy_return)
next
  case GET_TITLES
  then show ?thesis
    by (simp add: getTitlesBatch_io_def tidy_bind tidy_getStore tidy_return)
next
  case (ACK_TITLES ids)
  then show ?thesis
    by (simp add: ackTitles_io_def tidy_bind tidy_getStore tidy_setStore tidy_return)
next
  case CLEAR_TITLES
  then show ?thesis
    by (simp add: clearTitlesBatch_io_def tidy_bind tidy_setStore tidy_return)
next
  case (SET_PROFILE prof)
  then show ?thesis
    by (simp add: setProfileHistogram_io_def tidy_bind tidy_Date_now tidy_setStore tidy_return)
next
  case GET_PROFILE
  then show ?thesis
    by (simp add: getProfileHistogram_io_def tidy_bind tidy_getStore tidy_return)
next
  case (APPEND_PIECE pc)
  then show ?thesis
    by (simp add: appendPiece_io_def tidy_bind tidy_Date_now tidy_new_Date tidy_getStore
        tidy_setStore tidy_return)
next
  case GET_ARCHIVE
  then show ?thesis
    by (simp add: getArchive_io_def tidy_bind tidy_getStore tidy_return)
next
  case GET_STATUS
  then show ?thesis
    by (simp add: getStatus_io_def tidy_bind tidy_getStore tidy_return)
next
  case CLEAR_PROFILE_ARCHIVE
  then show ?thesis
    by (simp add: clearProfileAndArchive_io_def tidy_bind tidy_Date_now tidy_setStore tidy_return)
next
  case (Other_type t)
  then show ?thesis by (simp add: tidy_return)
qed

lemma handler_ok:
  assumes "handler rt msg w = (Inr r, w')"
  shows "\<forall>x. r = Some x \<longrightarrow> rs_ok x"
proof (cases msg)
  case (LCL_ADD_EVENT p)
  with assms show ?thesis
    by (auto simp: return_io_def stored_response_def elim!: bind_io_Inr split: option.splits)
next
  case (Other_type t)
  with assms show ?thesis by (simp add: return_io_def)
qed (use assms in \<open>auto simp: return_io_def ok_response_def data_response_def elim!: bind_io_Inr\<close>)

lemma sanitizeEvent_result:
  assumes "sanitizeEvent p w = (r, w')"
  shows "\<exists>c. r = Inr c \<and> w_raised w' = w_raised w \<and> w_events w' = w_events w"
  using assms
  by (auto simp: sanitizeEvent_def Date_now_def new_Date_def bind_io_def return_io_def Let_def
      split: option.splits if_splits)

lemma addEvent_result:
  assumes "addEvent evt w = (r, w')"
  shows "(\<exists>e. r = Inl e \<and> w_raised w' = w_raised w @ [e] \<and> w_events w' = w_events w) \<or>
         (r = Inr () \<and> w_raised w' = w_raised w \<and> w_events w' = w_events w @ [evt])"
  using assms
  by (auto simp: addEvent_def openDB_def prim_def bind_io_def
      split: list.splits option.splits)

lemma preserves_events_update: "preserves w_events (updateTitlesBatchFromEvent_io rt evt)"
  unfolding updateTitlesBatchFromEvent_io_def getStore_def setStore_def
  by (intro preserves_bind preserves_Date_now preserves_prim) simp_all

lemma enqueue_result:
  assumes "enqueueTitlesUpdate rt evt w = (r, w')"
  shows "r = Inr () \<and> w_events w' = w_events w \<and>
         (w_raised w' = w_raised w \<or> (\<exists>e. w_raised w' = w_raised w @ [e]))"
proof -
  obtain r1 w1 where u: "updateTitlesBatchFromEvent_io rt evt w = (r1, w1)"
    by (cases "updateTitlesBatchFromEvent_io rt evt w")
  from preservesD [OF preserves_events_update u] have e: "w_events w1 = w_events w" .
  from tidyD [OF tidy_update u] have t:
    "case r1 of Inl e \<Rightarrow> w_raised w1 = w_raised w @ [e] | Inr a \<Rightarrow> w_raised w1 = w_raised w" .
  from assms u e t show ?thesis
    by (cases r1) (auto simp: enqueueTitlesUpdate_def catch_io_def return_io_def)
qed

lemma add_event_outcome:
  assumes "handler rt (LCL_ADD_EVENT p) w = (r, w')"
  shows "(w_raised w' = w_raised w \<and> (\<exists>b. r = Inr (Some (stored_response b)))) \<or>
         (\<exists>e. w_raised w' = w_raised w @ [e] \<and>
              (r = Inl e \<or>
               r = Inr (Some (stored_response True)) \<and> (\<exists>evt. w_events w' = w_events w @ [evt])))"
proof -
  obtain r0 w0 where s: "sanitizeEvent p w = (r0, w0)" by (cases "sanitizeEvent p w")
  from sanitizeEvent_result [OF s] obtain c where
    c: "r0 = Inr c" "w_raised w0 = w_raised w" "w_events w0 = w_events w" by blast
  show ?thesis
  proof (cases c)
    case None
    with assms s c show ?thesis by (auto simp: bind_io_def return_io_def)
  next
    case (Some evt)
    obtain r1 w1 where a: "addEvent evt w0 = (r1, w1)" by (cases "addEvent evt w0")
    from addEvent_result [OF a] show ?thesis
    proof
      assume "\<exists>e. r1 = Inl e \<and> w_raised w1 = w_raised w0 @ [e] \<and> w_events w1 = w_events w0"
      with assms s c Some a show ?thesis by (auto simp: bind_io_def)
    next
      assume ok: "r1 = Inr () \<and> w_raised w1 = w_raised w0 \<and> w_events w1 = w_events w0 @ [evt]"
      obtain r2 w2 where q: "enqueueTitlesUpdate rt evt w1 = (r2, w2)"
        by (cases "enqueueTitlesUpdate rt evt w1")
      from enqueue_result [OF q] have
        "r2 = Inr ()" "w_events w2 = w_events w1"
        "w_raised w2 = w_raised w1 \<or> (\<exists>e. w_raised w2 = w_raised w1 @ [e])" by auto
      with assms s c Some a ok q show ?thesis
        by (auto simp: bind_io_def return_io_def)
    qed
  qed
qed

text \<open>
  C5 (as amended). Whatever the message and the state, the listener returns. If no storage
  or database call threw while it ran, the response, if any, has \<open>ok\<close> true. If a call threw
  \<open>e\<close>, the response is \<open>{ok: false, error: String(e)}\<close>, with one exception: when the
  message is \<open>LCL_ADD_EVENT\<close> and the call that threw belongs to the queued update of the
  Title Store, after the event was written to the log, the queue's own \<open>catch\<close> swallows
  \<open>e\<close> and the response is \<open>{ok: true, stored: true}\<close>.
\<close>

theorem listener_error_containment:
  assumes "onMessage rt msg w = (resp, w')"
  shows "(w_raised w' = w_raised w \<and> (\<forall>x. resp = Some x \<longrightarrow> rs_ok x)) \<or>
         (\<exists>e. w_raised w' = w_raised w @ [e] \<and>
              (resp = Some (error_response e) \<or>
               (\<exists>p. msg = LCL_ADD_EVENT p) \<and> resp = Some (stored_response True) \<and>
               (\<exists>evt. w_events w' = w_events w @ [evt])))"
proof -
  obtain r w1 where h: "handler rt msg w = (r, w1)" by (cases "handler rt msg w")
  show ?thesis
  proof (cases "\<exists>p. msg = LCL_ADD_EVENT p")
    case True
    then obtain p where p: "msg = LCL_ADD_EVENT p" ..
    from h p have "handler rt (LCL_ADD_EVENT p) w = (r, w1)" by simp
    from add_event_outcome [OF this] assms h p show ?thesis
      by (auto simp: onMessage_def stored_response_def)
  next
    case False
    then have "tidy (handler rt msg)" by (intro tidy_handler) blast
    from tidyD [OF this h] have t:
      "case r of Inl e \<Rightarrow> w_raised w1 = w_raised w @ [e] | Inr a \<Rightarrow> w_raised w1 = w_raised w" .
    show ?thesis
    proof (cases r)
      case (Inl e)
      with assms h t show ?thesis by (auto simp: onMessage_def)
    next
      case (Inr a)
      with h handler_ok have "\<forall>x. a = Some x \<longrightarrow> rs_ok x" by blast
      with Inr assms h t show ?thesis by (auto simp: onMessage_def)
    qed
  qed
qed

theorem listener_error_containment_witness:
  "fst (onMessage latin1_runtime GET_TITLES (mk_world empty_store 1000 [Some (Exn (js ''boom''))])) =
     Some (error_response (Exn (js ''boom'')))"
proof -
  let ?w = "mk_world empty_store 1000 [Some (Exn (js ''boom''))]"
  let ?r = "onMessage latin1_runtime GET_TITLES ?w"
  have r: "w_raised (snd ?r) = [Exn (js ''boom'')]" by code_simp
  have w: "w_raised ?w = []" by (simp add: mk_world_def)
  have "?r = (fst ?r, snd ?r)" by simp
  from listener_error_containment [OF this] r w show ?thesis by auto
qed

theorem listener_swallows_update_error:
  "fst (onMessage latin1_runtime (LCL_ADD_EVENT (Some (mk_raw 900 ''News'')))
          (mk_world empty_store 1000 [None, None, Some (Exn (js ''boom''))])) =
     Some \<lparr>rs_ok = True, rs_stored = Some True, rs_data = None, rs_error = None\<rparr> \<and>
   w_raised (snd (onMessage latin1_runtime (LCL_ADD_EVENT (Some (mk_raw 900 ''News'')))
          (mk_world empty_store 1000 [None, None, Some (Exn (js ''boom''))]))) =
     [Exn (js ''boom'')] \<and>
   titles_batch (w_store (snd (onMessage latin1_runtime (LCL_ADD_EVENT (Some (mk_raw 900 ''News'')))
          (mk_world empty_store 1000 [None, None, Some (Exn (js ''boom''))])))) = []"
  by code_simp

section \<open>The sync status\<close>

lemma preserves_sync_getStore: "preserves last_sync getStore"
  unfolding getStore_def by (rule preserves_prim) (simp_all add: last_sync_def)

lemma preserves_sync_openDB: "preserves last_sync openDB"
  unfolding openDB_def by (rule preserves_prim) (simp_all add: last_sync_def)

lemma preserves_sync_setStore:
  "(\<And>s. last_webapp_sync_at (obj s) = last_webapp_sync_at s) \<Longrightarrow> preserves last_sync (setStore obj)"
  unfolding setStore_def by (rule preserves_prim) (simp_all add: last_sync_def)

lemma preserves_sync_Date_now: "preserves last_sync Date_now"
  by (rule preserves_Date_now) (simp add: last_sync_def)

lemma preserves_sync_sanitizeEvent: "preserves last_sync (sanitizeEvent p)"
  unfolding sanitizeEvent_def Let_def
  by (auto split: option.splits intro!: preserves_bind preserves_return preserves_sync_Date_now)

lemma preserves_sync_addEvent: "preserves last_sync (addEvent evt)"
  unfolding addEvent_def
  by (intro preserves_bind preserves_sync_openDB preserves_prim) (simp_all add: last_sync_def)

lemma preserves_sync_enqueue: "preserves last_sync (enqueueTitlesUpdate rt evt)"
  unfolding enqueueTitlesUpdate_def updateTitlesBatchFromEvent_io_def
  by (intro preserves_catch preserves_bind preserves_return preserves_sync_Date_now
      preserves_sync_getStore preserves_sync_setStore) simp

lemma preserves_sync_handler:
  assumes "msg \<noteq> CLEAR_PROFILE_ARCHIVE" "\<And>p. msg \<noteq> SET_PROFILE p" "\<And>p. msg \<noteq> APPEND_PIECE p"
  shows "preserves last_sync (handler rt msg)"
proof (cases msg)
  case (LCL_ADD_EVENT p)
  then show ?thesis
    by (auto split: option.splits intro!: preserves_bind preserves_return
        preserves_sync_sanitizeEvent preserves_sync_addEvent preserves_sync_enqueue)
next
  case (LCL_GET_RECENT limit)
  then show ?thesis
    by (auto simp: getRecent_def intro!: preserves_bind preserves_return preserves_sync_openDB)
      (simp add: preserves_def)
next
  case LCL_CLEAR
  then show ?thesis
    by (auto simp: clearAll_def intro!: preserves_bind preserves_return preserves_sync_openDB)
      (simp add: preserves_def last_sync_def)
next
  case GET_TITLES
  then show ?thesis
    by (auto simp: getTitlesBatch_io_def intro!: preserves_bind preserves_return preserves_sync_getStore)
next
  case (ACK_TITLES ids)
  then show ?thesis
    by (auto simp: ackTitles_io_def
        intro!: preserves_bind preserves_return preserves_sync_getStore preserves_sync_setStore)
next
  case CLEAR_TITLES
  then show ?thesis
    by (auto simp: clearTitlesBatch_io_def
        intro!: preserves_bind preserves_return preserves_sync_setStore)
next
  case (SET_PROFILE prof)
  with assms show ?thesis by blast
next
  case GET_PROFILE
  then show ?thesis
    by (auto simp: getProfileHistogram_io_def
        intro!: preserves_bind preserves_return preserves_sync_getStore)
next
  case (APPEND_PIECE pc)
  with assms show ?thesis by blast
next
  case GET_ARCHIVE
  then show ?thesis
    by (auto simp: getArchive_io_def intro!: preserves_bind preserves_return preserves_sync_getStore)
next
  case GET_STATUS
  then show ?thesis
    by (auto simp: getStatus_io_def intro!: preserves_bind preserves_return preserves_sync_getStore)
next
  case CLEAR_PROFILE_ARCHIVE
  with assms show ?thesis by blast
next
  case (Other_type t)
  then show ?thesis by (simp add: preserves_return)
qed

lemma last_sync_frame:
  assumes "msg \<noteq> CLEAR_PROFILE_ARCHIVE" "\<And>p. msg \<noteq> SET_PROFILE p" "\<And>p. msg \<noteq> APPEND_PIECE p"
  shows "last_sync (snd (onMessage rt msg w)) = last_sync w"
proof -
  obtain r w1 where h: "handler rt msg w = (r, w1)" by (cases "handler rt msg w")
  from preservesD [OF preserves_sync_handler [OF assms] h] have "last_sync w1 = last_sync w" .
  with h show ?thesis by (cases r) (simp_all add: onMessage_def)
qed

text \<open>
  C8. \<open>CLEAR_PROFILE_ARCHIVE\<close>, which is neither \<open>SET_PROFILE\<close> nor \<open>APPEND_PIECE\<close>, writes
  \<open>last_webapp_sync_at\<close>: on a store whose last sync was at 1000, handled at time 2000, it
  leaves 2000 there.
\<close>

theorem clear_writes_last_sync:
  "last_sync (mk_world (empty_store\<lparr>last_webapp_sync_at := Some 1000\<rparr>) 2000 []) = Some 1000 \<and>
   last_sync (snd (onMessage latin1_runtime CLEAR_PROFILE_ARCHIVE
       (mk_world (empty_store\<lparr>last_webapp_sync_at := Some 1000\<rparr>) 2000 []))) = Some 2000"
  by code_simp

section \<open>The bridge\<close>

lemma deliver_resolved:
  "pn_result p = Some v \<Longrightarrow> pn_result (foldl deliver p trace) = Some v"
proof (induction trace arbitrary: p)
  case Nil
  then show ?case by simp
next
  case (Cons ev trace)
  from Cons.prems have "pn_result (deliver p ev) = Some v"
    by (auto simp: deliver_def listener_def resolve_def split: win_event.splits option.splits)
  from Cons.IH [OF this] show ?case by simp
qed

lemma deliver_waiting:
  assumes "pn_result p = None" "\<not> pn_done p" "pn_listening p" "pn_requestId p = rid"
  shows "pn_result (foldl deliver p trace) =
           (case filter (answers rid) (before_timer trace) of
              Message (Some d) # _ \<Rightarrow> Some (en_response d)
            | _ \<Rightarrow> if TimerFired \<in> set trace then Some None else None)"
  using assms
proof (induction trace arbitrary: p)
  case Nil
  then show ?case by (simp add: before_timer_def)
next
  case (Cons ev trace)
  show ?case
  proof (cases ev)
    case TimerFired
    with Cons.prems have "pn_result (deliver p ev) = Some None"
      by (simp add: deliver_def resolve_def)
    from deliver_resolved [OF this] TimerFired show ?thesis
      by (simp add: before_timer_def)
  next
    case (Message data)
    show ?thesis
    proof (cases "answers rid ev")
      case True
      with Message obtain d where d: "data = Some d" "en_namespace d = PM_NAMESPACE_OUT" "en_requestId d = rid"
        by (auto simp: answers_def split: option.splits)
      with Message Cons.prems have "pn_result (deliver p ev) = Some (en_response d)"
        by (simp add: deliver_def listener_def resolve_def)
      from deliver_resolved [OF this] Message d True show ?thesis
        by (simp add: before_timer_def)
    next
      case False
      with Message Cons.prems have "deliver p ev = p"
        by (auto simp: deliver_def listener_def answers_def split: option.splits)
      with Cons.IH [of p] Cons.prems Message False show ?thesis
        by (simp add: before_timer_def)
    qed
  qed
qed

lemma pmSend_result:
  "pmSend True rid t trace =
     (case filter (answers rid) (before_timer trace) of
        Message (Some d) # _ \<Rightarrow> Some (en_response d)
      | _ \<Rightarrow> if TimerFired \<in> set trace then Some None else None)"
  unfolding pmSend_def
  by (simp add: deliver_waiting [of _ rid] pmSend_start_def)

text \<open>
  C6 (as amended). \<open>send\<close> waits for the relay with a timer of 1500 ms. Of the messages
  delivered before the timer fires, the first that carries the namespace of the extension
  and the request's id decides: if its response is present, \<open>send\<close> returns it and
  \<open>runtimeSend\<close> is not called; if its response is absent, or if there is no such message
  and the timer fires, the relay attempt resolves to \<open>null\<close> and \<open>send\<close> returns what
  \<open>runtimeSend\<close> gives.
\<close>

theorem transport_fallback:
  assumes "has_window pg"
  shows "default_timeoutMs = 1500 \<and>
    (filter (answers rid) (before_timer trace) = [] \<and> TimerFired \<in> set trace \<longrightarrow>
       pmSend True rid default_timeoutMs trace = Some None \<and>
       send pg rid trace = Some \<lparr>returned = runtimeSend pg, direct_used = True\<rparr>) \<and>
    (\<forall>d rest r. filter (answers rid) (before_timer trace) = Message (Some d) # rest \<and>
        en_response d = Some r \<longrightarrow>
       send pg rid trace = Some \<lparr>returned = Some r, direct_used = False\<rparr>) \<and>
    (\<forall>d rest. filter (answers rid) (before_timer trace) = Message (Some d) # rest \<and>
        en_response d = None \<longrightarrow>
       send pg rid trace = Some \<lparr>returned = runtimeSend pg, direct_used = True\<rparr>)"
  using assms by (auto simp: send_def pmSend_result default_timeoutMs_def)

theorem transport_fallback_witness:
  "send web_page (js ''r1'')
     [request_echo ''r1'', reply ''r0'' (Some ok_response), TimerFired, reply ''r1'' (Some ok_response)] =
     Some \<lparr>returned = runtimeSend web_page, direct_used = True\<rparr> \<and>
   send web_page (js ''r1'')
     [request_echo ''r1'', reply ''r1'' (Some ok_response), TimerFired] =
     Some \<lparr>returned = Some ok_response, direct_used = False\<rparr>"
proof -
  let ?t1 = "[request_echo ''r1'', reply ''r0'' (Some ok_response), TimerFired, reply ''r1'' (Some ok_response)]"
  let ?t2 = "[request_echo ''r1'', reply ''r1'' (Some ok_response), TimerFired]"
  let ?d = "\<lparr>en_namespace = PM_NAMESPACE_OUT, en_requestId = js ''r1'', en_response = Some ok_response\<rparr>"
  have w: "has_window web_page" by (simp add: web_page_def)
  have a: "filter (answers (js ''r1'')) (before_timer ?t1) = [] \<and> TimerFired \<in> set ?t1"
    by (simp add: answers_def before_timer_def request_echo_def reply_def PM_NAMESPACE_IN_def
        PM_NAMESPACE_OUT_def js_def)
  have b: "filter (answers (js ''r1'')) (before_timer ?t2) = Message (Some ?d) # [] \<and>
           en_response ?d = Some ok_response"
    by (simp add: answers_def before_timer_def request_echo_def reply_def PM_NAMESPACE_IN_def
        PM_NAMESPACE_OUT_def js_def)
  from transport_fallback [OF w, of "js ''r1''" ?t1] a
  have 1: "send web_page (js ''r1'') ?t1 = Some \<lparr>returned = runtimeSend web_page, direct_used = True\<rparr>"
    by blast
  from transport_fallback [OF w, of "js ''r1''" ?t2] b
  have 2: "send web_page (js ''r1'') ?t2 = Some \<lparr>returned = Some ok_response, direct_used = False\<rparr>"
    by blast
  from 1 2 show ?thesis by (rule conjI)
qed

theorem relay_empty_response:
  "answers (js ''r1'') (reply ''r1'' None) \<and>
   send web_page (js ''r1'') [request_echo ''r1'', reply ''r1'' None, TimerFired] =
     Some \<lparr>returned = Some (data_response (Status None)), direct_used = True\<rparr>"
  by code_simp

section \<open>The duration scenario\<close>

lemma sighting1_value:
  "sighting1 =
     (Some \<lparr>r_ts = 0, r_type = js ''feed_video'', r_platform = js ''youtube'',
            r_variant = js ''desktop'', r_videoId = js ''aaaaaaaaaa1'',
            r_title = js ''Breaking News Today'', r_channel = js ''Some Channel'',
            r_length = js ''3:12'', r_badges = [], r_position = 1,
            r_href = js ''https://www.youtube.com/watch?v=aaaaaaaaaa1'', r_page = js ''/''\<rparr>,
      \<lparr>seen = [js ''aaaaaaaaaa1|/''], positionCounter = 1, currentPath = js ''/''\<rparr>)"
  by code_simp

lemma sighting2_value:
  "sighting2 =
     (Some \<lparr>r_ts = 100, r_type = js ''feed_video'', r_platform = js ''youtube'',
            r_variant = js ''desktop'', r_videoId = js ''bbbbbbbbbb2'',
            r_title = js ''Breaking News Today'', r_channel = js ''Some Channel'',
            r_length = js ''3:12'', r_badges = [], r_position = 2,
            r_href = js ''https://www.youtube.com/watch?v=bbbbbbbbbb2'', r_page = js ''/''\<rparr>,
      \<lparr>seen = [js ''bbbbbbbbbb2|/'', js ''aaaaaaaaaa1|/''], positionCounter = 2,
        currentPath = js ''/''\<rparr>)"
  unfolding sighting2_def sighting1_value snd_conv by code_simp

lemma after_sightings_value:
  "titles_batch (w_store after_sightings) =
     [\<lparr>e_id = hashStr (js ''breaking news today''), e_title = js ''Breaking News Today'',
       e_ts = 100, e_platform = js ''youtube''\<rparr>]"
  unfolding after_sightings_def sighting1_value sighting2_value fst_conv by code_simp

text \<open>
  C9 (as amended). The title \<open>Breaking News Today - 3 minutes, 12 seconds\<close>, sighted twice
  with no explicit length (at times 0 and 100), is sent both times with title
  \<open>Breaking News Today\<close> and length \<open>3:12\<close>, and the Title Store ends with exactly one
  entry, with that title and \<open>ts = 100\<close>. The length stays on the payload: the entry has
  the properties id, title, ts and platform only.
\<close>

theorem duration_scenario:
  "map_option r_title (fst sighting1) = Some (js ''Breaking News Today'') \<and>
   map_option r_length (fst sighting1) = Some (js ''3:12'') \<and>
   map_option r_title (fst sighting2) = Some (js ''Breaking News Today'') \<and>
   map_option r_length (fst sighting2) = Some (js ''3:12'') \<and>
   titles_batch (w_store after_sightings) =
     [\<lparr>e_id = hashStr (js ''breaking news today''), e_title = js ''Breaking News Today'',
       e_ts = 100, e_platform = js ''youtube''\<rparr>] \<and>
   map (map fst \<circ> entry_object) (titles_batch (w_store after_sightings)) =
     [[''id'', ''title'', ''ts'', ''platform'']]"
  by (simp add: sighting1_value sighting2_value after_sightings_value entry_object_def)

theorem duration_scenario_no_length:
  "map (\<lambda>x. map_of (entry_object x) ''length'') (titles_batch (w_store after_sightings)) = [None]"
  by (simp add: after_sightings_value entry_object_def)

end
